theory Spec2Isabelle
  imports Complex_Main "HOL-Library.Word"
begin

unbundle bit_operations_syntax

chapter \<open>Audio2Face inference streaming server: embedding and verified properties\<close>

text \<open>
  The theory embeds the server's transport (\<^verbatim>\<open>websocket_server.cpp\<close>), dispatcher
  (\<^verbatim>\<open>main.cpp\<close>) and session pipeline (\<^verbatim>\<open>inference_sessions.cpp\<close>) as HOL functions.
  Machine integers are words of the width the C++ gives them (\<open>size_t\<close> is taken
  as 64 bits); a byte is an \<open>8 word\<close>. Part I holds the definitions, Part II the proofs.
\<close>

section \<open>Part I: the embedding\<close>

subsection \<open>Transport: frames on the wire (\<^verbatim>\<open>websocket_server.cpp\<close>)\<close>

type_synonym byte = "8 word"
type_synonym u32 = "32 word"
type_synonym u64 = "64 word"

text \<open>
  \<^verbatim>\<open>enum class Opcode : std::uint8_t\<close>. \<^verbatim>\<open>ReadFrame\<close> casts the low nibble of the first
  header byte to the enumeration without a check, so the type holds every byte value;
  the six enumerators are named constants.
\<close>

type_synonym Opcode = "8 word"

definition Continuation :: Opcode where "Continuation = 0x0"
definition Text :: Opcode where "Text = 0x1"
definition Binary :: Opcode where "Binary = 0x2"
definition Close :: Opcode where "Close = 0x8"
definition Ping :: Opcode where "Ping = 0x9"
definition Pong :: Opcode where "Pong = 0xA"

record Frame =
  fin :: bool
  opcode :: Opcode
  payload :: "byte list"

text \<open>
  The receiving side of a socket is the list of bytes the peer delivers before the
  connection ends. \<^verbatim>\<open>Socket::RecvAll(data, len)\<close> returns the next \<open>len\<close> bytes and
  leaves the rest; when fewer than \<open>len\<close> bytes arrive it has consumed them all and
  returns false (\<open>None\<close>).
\<close>

definition RecvAll :: "byte list \<Rightarrow> nat \<Rightarrow> byte list option \<times> byte list" where
  "RecvAll inbound len =
     (if len \<le> length inbound then (Some (take len inbound), drop len inbound)
      else (None, []))"

text \<open>
  \<^verbatim>\<open>ReadFrame\<close>, lines 350--365: the extended payload length, two bytes big-endian after
  the 7-bit value 126, eight bytes after 127.
\<close>

definition ReadExtendedLength :: "byte list \<Rightarrow> u64 \<Rightarrow> u64 option \<times> byte list" where
  "ReadExtendedLength inbound payloadLen =
     (if payloadLen = 126 then
        (case RecvAll inbound 2 of
           (None, rest) \<Rightarrow> (None, rest)
         | (Some ext, rest) \<Rightarrow> (Some ((push_bit 8 (ucast (ext ! 0))) OR ucast (ext ! 1)), rest))
      else if payloadLen = 127 then
        (case RecvAll inbound 8 of
           (None, rest) \<Rightarrow> (None, rest)
         | (Some ext, rest) \<Rightarrow>
             (Some (fold (\<lambda>i len. (push_bit 8 len) OR ucast (ext ! i)) [0..<8] 0), rest))
      else (Some payloadLen, inbound))"

text \<open>
  \<^verbatim>\<open>ReadFrame\<close>, lines 336--365: the two header bytes, the rejection of a frame whose FIN
  bit is clear, and the extended length. The result is the opcode, the mask bit and the
  declared payload length, with the bytes not yet read.
\<close>

definition ReadHeader :: "byte list \<Rightarrow> (Opcode \<times> bool \<times> u64) option \<times> byte list" where
  "ReadHeader inbound =
     (case RecvAll inbound 2 of
        (None, rest) \<Rightarrow> (None, rest)
      | (Some header, rest) \<Rightarrow>
          let finBit = ((header ! 0) AND 0x80 \<noteq> 0);
              opc = (header ! 0) AND 0x0f;
              masked = ((header ! 1) AND 0x80 \<noteq> 0);
              payloadLen = (ucast ((header ! 1) AND 0x7f) :: u64)
          in if \<not> finBit then (None, rest)
             else
               (case ReadExtendedLength rest payloadLen of
                  (None, rest) \<Rightarrow> (None, rest)
                | (Some payloadLen, rest) \<Rightarrow> (Some (opc, masked, payloadLen), rest)))"

text \<open>Lines 387--391: every payload byte is XORed with \<open>maskKey[i % 4]\<close>.\<close>

definition unmask :: "byte list \<Rightarrow> byte list \<Rightarrow> byte list" where
  "unmask maskKey body = map (\<lambda>i. (body ! i) XOR (maskKey ! (i mod 4))) [0..<length body]"

text \<open>
  \<^verbatim>\<open>ReadFrame(sock, outFrame, maxPayloadBytes)\<close>, lines 367--392 after the header: the cap
  on the declared length, the mask key, the body. The result is the frame (\<open>None\<close> for
  the return value false) and the bytes left unread.
\<close>

definition ReadFrame :: "byte list \<Rightarrow> u64 \<Rightarrow> Frame option \<times> byte list" where
  "ReadFrame inbound maxPayloadBytes =
     (case ReadHeader inbound of
        (None, rest) \<Rightarrow> (None, rest)
      | (Some (opc, masked, payloadLen), rest) \<Rightarrow>
          if payloadLen > maxPayloadBytes then (None, rest)
          else
            (case (if masked then RecvAll rest 4 else (Some [0, 0, 0, 0], rest)) of
               (None, rest) \<Rightarrow> (None, rest)
             | (Some maskKey, rest) \<Rightarrow>
                 (case (if payloadLen > 0 then RecvAll rest (unat payloadLen)
                        else (Some [], rest)) of
                    (None, rest) \<Rightarrow> (None, rest)
                  | (Some body, rest) \<Rightarrow>
                      (Some \<lparr>fin = True, opcode = opc,
                              payload = (if masked then unmask maskKey body else body)\<rparr>,
                       rest))))"

text \<open>
  \<^verbatim>\<open>SendFrame(sock, opcode, payload, payloadLen)\<close>: the byte vector \<open>frame\<close> that the function
  builds and hands to \<^verbatim>\<open>SendAll\<close> in one call.
\<close>

definition SendFrame :: "Opcode \<Rightarrow> byte list \<Rightarrow> byte list" where
  "SendFrame opc body =
     (let payloadLen = (of_nat (length body) :: u64);
          first = [0x80 OR (opc AND 0x0f)];
          header =
            (if payloadLen \<le> 125 then first @ [ucast payloadLen]
             else if payloadLen \<le> 0xffff then
               first @ [126, ucast ((drop_bit 8 payloadLen) AND 0xff), ucast (payloadLen AND 0xff)]
             else first @ [127] @ map (\<lambda>i. ucast ((drop_bit (i * 8) payloadLen) AND 0xff))
                                     [7, 6, 5, 4, 3, 2, 1, 0])
      in header @ body)"

text \<open>\<^verbatim>\<open>HandleClient\<close>: \<^verbatim>\<open>constexpr std::size_t kMaxPayload = 4 * 1024 * 1024\<close>.\<close>

definition kMaxPayload :: u64 where
  "kMaxPayload = 4 * 1024 * 1024"

subsection \<open>Transport: the handshake's accept key (\<^verbatim>\<open>websocket_server.cpp\<close>)\<close>

text \<open>The lambda \<^verbatim>\<open>leftRotate\<close> of \<^verbatim>\<open>Sha1\<close>, on 32-bit unsigned values.\<close>

definition leftRotate :: "u32 \<Rightarrow> nat \<Rightarrow> u32" where
  "leftRotate v bits = (push_bit bits v) OR (drop_bit (32 - bits) v)"

text \<open>
  \<^verbatim>\<open>while ((msg.size() % 64) != 56) msg.push_back(0x00)\<close>. The loop ends after at most 63
  steps: the distance of the size to the next value congruent to 56 goes down by one.
\<close>

lemma Sha1_pad_measure:
  assumes "(n::nat) mod 64 \<noteq> 56"
  shows "0 < (56 - int n) mod 64 \<and> (55 - int n) mod 64 < (56 - int n) mod 64"
proof -
  let ?a = "56 - int n"
  have nz: "?a mod 64 \<noteq> 0"
  proof
    assume "?a mod 64 = 0"
    then have "(56 - ?a) mod 64 = 56 mod 64"
      by (metis diff_zero mod_diff_right_eq)
    then have "int (n mod 64) = 56" by (simp add: zmod_int)
    then show False using assms by simp
  qed
  have pos: "0 \<le> ?a mod 64" "?a mod 64 < 64" by simp_all
  have "(?a - 1) mod 64 = (?a mod 64 - 1) mod 64" by (simp add: mod_diff_left_eq)
  also have "\<dots> = ?a mod 64 - 1" using nz pos by (simp add: mod_pos_pos_trivial)
  finally have "(55 - int n) mod 64 = ?a mod 64 - 1" by (simp add: algebra_simps)
  then show ?thesis using nz pos by simp
qed

function Sha1_pad :: "byte list \<Rightarrow> byte list" where
  "Sha1_pad msg = (if length msg mod 64 \<noteq> 56 then Sha1_pad (msg @ [0x00]) else msg)"
  by pat_completeness auto
termination
  by (relation "measure (\<lambda>msg. nat ((56 - int (length msg)) mod 64))")
    (simp_all add: Sha1_pad_measure)

declare Sha1_pad.simps [simp del]

text \<open>
  Lines 42--50: the message bytes, the byte 0x80, the zero padding and the bit length as
  eight big-endian bytes. \<open>bitLen\<close> is a 64-bit product and wraps as such.
\<close>

definition Sha1_message :: "string \<Rightarrow> byte list" where
  "Sha1_message input =
     (let bitLen = (of_nat (length input) :: u64) * 8;
          msg = Sha1_pad (map of_char input @ [0x80])
      in msg @ map (\<lambda>i. ucast ((drop_bit (i * 8) bitLen) AND 0xff)) [7, 6, 5, 4, 3, 2, 1, 0])"

text \<open>
  Lines 60--66: the first sixteen words of the schedule, read big-endian from the chunk.
  The array \<open>w\<close> has 80 entries and is declared once, before the loop over the chunks.
\<close>

definition Sha1_load_step :: "byte list \<Rightarrow> nat \<Rightarrow> nat \<Rightarrow> u32 list \<Rightarrow> u32 list" where
  "Sha1_load_step msg chunk i w =
     (let idx = chunk + i * 4 in
        w[i := (push_bit 24 (ucast (msg ! idx))) OR (push_bit 16 (ucast (msg ! (idx + 1)))) OR
               (push_bit 8 (ucast (msg ! (idx + 2)))) OR (ucast (msg ! (idx + 3)))])"

definition Sha1_load :: "byte list \<Rightarrow> nat \<Rightarrow> u32 list \<Rightarrow> u32 list" where
  "Sha1_load msg chunk w = fold (Sha1_load_step msg chunk) [0..<16] w"

text \<open>Lines 67--69: \<open>w[i] = leftRotate(w[i-3] ^ w[i-8] ^ w[i-14] ^ w[i-16], 1)\<close> for i from 16 to 79.\<close>

definition Sha1_expand_step :: "nat \<Rightarrow> u32 list \<Rightarrow> u32 list" where
  "Sha1_expand_step i w =
     w[i := leftRotate (w ! (i - 3) XOR w ! (i - 8) XOR w ! (i - 14) XOR w ! (i - 16)) 1]"

definition Sha1_expand :: "u32 list \<Rightarrow> u32 list" where
  "Sha1_expand w = fold Sha1_expand_step [16..<80] w"

text \<open>Lines 77--100: one of the eighty rounds, on the registers a, b, c, d, e.\<close>

type_synonym sha1_regs = "u32 \<times> u32 \<times> u32 \<times> u32 \<times> u32"

definition Sha1_step :: "nat \<Rightarrow> u32 \<Rightarrow> sha1_regs \<Rightarrow> sha1_regs" where
  "Sha1_step i wi r =
     (case r of (a, b, c, d, e) \<Rightarrow>
        let (f, k) =
              (if i < 20 then ((b AND c) OR ((NOT b) AND d), 0x5A827999)
               else if i < 40 then (b XOR c XOR d, 0x6ED9EBA1)
               else if i < 60 then ((b AND c) OR (b AND d) OR (c AND d), 0x8F1BBCDC)
               else (b XOR c XOR d, 0xCA62C1D6));
            temp = leftRotate a 5 + f + e + k + wi
        in (temp, a, leftRotate b 30, c, d))"

definition Sha1_round :: "u32 list \<Rightarrow> nat \<Rightarrow> sha1_regs \<Rightarrow> sha1_regs" where
  "Sha1_round w i r = Sha1_step i (w ! i) r"

text \<open>Lines 59--107: one chunk, from the schedule to the update of h0..h4.\<close>

definition Sha1_chunk :: "byte list \<Rightarrow> nat \<Rightarrow> u32 list \<times> sha1_regs \<Rightarrow> u32 list \<times> sha1_regs" where
  "Sha1_chunk msg chunk st =
     (case st of (w0, (h0, h1, h2, h3, h4)) \<Rightarrow>
        let w = Sha1_expand (Sha1_load msg chunk w0) in
        (case fold (Sha1_round w) [0..<80] (h0, h1, h2, h3, h4) of
           (a, b, c, d, e) \<Rightarrow> (w, (h0 + a, h1 + b, h2 + c, h3 + d, h4 + e))))"

text \<open>\<^verbatim>\<open>for (std::size_t chunk = 0; chunk < msg.size(); chunk += 64)\<close>.\<close>

function Sha1_chunks :: "byte list \<Rightarrow> nat \<Rightarrow> u32 list \<times> sha1_regs \<Rightarrow> u32 list \<times> sha1_regs" where
  "Sha1_chunks msg chunk st =
     (if chunk < length msg then Sha1_chunks msg (chunk + 64) (Sha1_chunk msg chunk st) else st)"
  by pat_completeness auto
termination
  by (relation "measure (\<lambda>(msg, chunk, st). length msg - chunk)") auto

declare Sha1_chunks.simps [simp del]

definition storeBE32 :: "u32 \<Rightarrow> byte list" where
  "storeBE32 v = [ucast ((drop_bit 24 v) AND 0xff), ucast ((drop_bit 16 v) AND 0xff),
                  ucast ((drop_bit 8 v) AND 0xff), ucast (v AND 0xff)]"

definition Sha1 :: "string \<Rightarrow> byte list" where
  "Sha1 input =
     (case Sha1_chunks (Sha1_message input) 0
             (replicate 80 0, (0x67452301, 0xEFCDAB89, 0x98BADCFE, 0x10325476, 0xC3D2E1F0)) of
        (w, (h0, h1, h2, h3, h4)) \<Rightarrow>
          storeBE32 h0 @ storeBE32 h1 @ storeBE32 h2 @ storeBE32 h3 @ storeBE32 h4)"

definition kChars :: string where
  "kChars = ''ABCDEFGHIJKLMNOPQRSTUVWXYZabcdefghijklmnopqrstuvwxyz0123456789+/''"

text \<open>\<^verbatim>\<open>Base64Encode\<close>: the loop \<^verbatim>\<open>for (i = 0; i < len; i += 3)\<close>, four characters per step.\<close>

function Base64Encode_from :: "byte list \<Rightarrow> nat \<Rightarrow> string \<Rightarrow> string" where
  "Base64Encode_from data i out =
     (if i < length data then
        let octetA = (if i < length data then ucast (data ! i) else 0) :: u32;
            octetB = (if i + 1 < length data then ucast (data ! (i + 1)) else 0) :: u32;
            octetC = (if i + 2 < length data then ucast (data ! (i + 2)) else 0) :: u32;
            triple = (push_bit 16 octetA) OR (push_bit 8 octetB) OR octetC
        in Base64Encode_from data (i + 3)
             (out @ [kChars ! unat ((drop_bit 18 triple) AND 0x3f),
                     kChars ! unat ((drop_bit 12 triple) AND 0x3f),
                     (if i + 1 < length data then kChars ! unat ((drop_bit 6 triple) AND 0x3f) else CHR ''=''),
                     (if i + 2 < length data then kChars ! unat (triple AND 0x3f) else CHR ''='')])
      else out)"
  by pat_completeness auto
termination
  by (relation "measure (\<lambda>(data, i, out). length data - i)") auto

declare Base64Encode_from.simps [simp del]

definition Base64Encode :: "byte list \<Rightarrow> string" where
  "Base64Encode data = Base64Encode_from data 0 []"

definition kGuid :: string where
  "kGuid = ''258EAFA5-E914-47DA-95CA-C5AB0DC85B11''"

definition WebSocketAcceptKey :: "string \<Rightarrow> string" where
  "WebSocketAcceptKey secWebSocketKey =
     (let combined = secWebSocketKey @ kGuid;
          digest = Sha1 combined
      in Base64Encode digest)"

subsection \<open>The handshake's test vector: intermediate values\<close>

text \<open>
  Constants for the evaluation of \<^verbatim>\<open>WebSocketAcceptKey\<close> on the key of RFC 6455, section 1.3:
  the padded message of 128 bytes and the two message schedules. The proofs of Part II
  show that the functions above compute exactly these values.
\<close>

definition rfc_key :: string where
  "rfc_key = ''dGhlIHNhbXBsZSBub25jZQ==''"

definition rfc_msg :: "byte list" where
  "rfc_msg =
    [0x64, 0x47, 0x68, 0x6c, 0x49, 0x48, 0x4e, 0x68, 0x62, 0x58, 0x42, 0x73, 0x5a, 0x53, 0x42,
     0x75, 0x62, 0x32, 0x35, 0x6a, 0x5a, 0x51, 0x3d, 0x3d, 0x32, 0x35, 0x38, 0x45, 0x41, 0x46,
     0x41, 0x35, 0x2d, 0x45, 0x39, 0x31, 0x34, 0x2d, 0x34, 0x37, 0x44, 0x41, 0x2d, 0x39, 0x35,
     0x43, 0x41, 0x2d, 0x43, 0x35, 0x41, 0x42, 0x30, 0x44, 0x43, 0x38, 0x35, 0x42, 0x31, 0x31,
     0x80, 0x0, 0x0, 0x0, 0x0, 0x0, 0x0, 0x0, 0x0, 0x0, 0x0, 0x0, 0x0, 0x0, 0x0, 0x0, 0x0, 0x0,
     0x0, 0x0, 0x0, 0x0, 0x0, 0x0, 0x0, 0x0, 0x0, 0x0, 0x0, 0x0, 0x0, 0x0, 0x0, 0x0, 0x0, 0x0,
     0x0, 0x0, 0x0, 0x0, 0x0, 0x0, 0x0, 0x0, 0x0, 0x0, 0x0, 0x0, 0x0, 0x0, 0x0, 0x0, 0x0, 0x0,
     0x0, 0x0, 0x0, 0x0, 0x0, 0x0, 0x0, 0x0, 0x0, 0x0, 0x0, 0x0, 0x1, 0xe0]"

definition rfc_w1 :: "u32 list" where
  "rfc_w1 =
    [0x6447686c, 0x49484e68, 0x62584273, 0x5a534275, 0x6232356a, 0x5a513d3d, 0x32353845,
     0x41464135, 0x2d453931, 0x342d3437, 0x44412d39, 0x3543412d, 0x43354142, 0x30444338,
     0x35423131, 0x80000000, 0x363ca02c, 0x24e81236, 0x8856b441, 0x6fb3c92, 0x6fb4bcb6,
     0x460b16e3, 0x599219ae, 0x35bf9369, 0x3267458e, 0xf828fd04, 0x753a96a7, 0x6336f612,
     0xc3d66383, 0x6eb86f9, 0x73b4fd42, 0xa503c5b8, 0x15cdae35, 0x531e5dc5, 0x6fb6b7d0,
     0x6c16e4ac, 0x4ddd36bd, 0x35d36946, 0xe8ae8b9c, 0x4a933ad0, 0xce8628b4, 0x415dba9e,
     0x2792f049, 0x8e9b79e7, 0x79c425c5, 0x6353b49d, 0x994218, 0x8a950ed1, 0xaf5d0b99,
     0xfd9883de, 0x1ed8ffeb, 0xf007ff28, 0x425e3674, 0x59631c0, 0xad6c3c31, 0x860b71d7,
     0x87bfc548, 0x3e64f92d, 0x8d0ab761, 0x34e1ee35, 0xacf5108, 0xc2b479da, 0x6c93370a,
     0xf7935ba1, 0xe91c91c1, 0xbed165a2, 0x4c3e4abe, 0x50d96238, 0xb6587dde, 0x1a2ee6e6,
     0x2d335896, 0xf3495d0b, 0xf30e0a1d, 0x32ce5459, 0x7165e3b8, 0xab05ff94, 0xc5949f0b,
     0xbcd84e4a, 0x7720392, 0xff3ff806]"

definition rfc_w2 :: "u32 list" where
  "rfc_w2 =
    [0x0, 0x0, 0x0, 0x0, 0x0, 0x0, 0x0, 0x0, 0x0, 0x0, 0x0, 0x0, 0x0, 0x0, 0x0, 0x1e0, 0x0, 0x0,
     0x3c0, 0x0, 0x0, 0x780, 0x0, 0x3c0, 0xf00, 0x0, 0x0, 0x1e00, 0x0, 0xcc0, 0x3c00, 0x440, 0x0,
     0x7800, 0xf00, 0x3300, 0xf000, 0xf00, 0x0, 0x1ef00, 0x0, 0xcc00, 0x3c000, 0x4380, 0x0,
     0x78f00, 0xff00, 0x32680, 0xf0000, 0xf000, 0x3300, 0x1eff00, 0x0, 0xcb800, 0x3c0000,
     0x40b00, 0xf000, 0x78ff00, 0xff000, 0x338700, 0xf00000, 0xfc300, 0xf000, 0x1efbb00, 0x0,
     0xcc0000, 0x3c0f000, 0x438000, 0x0, 0x78f0000, 0xff0000, 0x3269e00, 0xf000000, 0xf0f000,
     0x333c00, 0x1eff8800, 0x0, 0xcb88800, 0x3c00f000, 0x40a4a00]"

subsection \<open>Reference definitions: SHA-1 (FIPS 180-4) and Base64 (RFC 4648)\<close>

text \<open>
  The accept value is specified as Base64(SHA1(K || GUID)). The two functions named there
  are written here from their standards, on their own terms (block lists, a recursive message
  schedule, arithmetic on natural numbers for the byte conversions), to be compared with the
  server's \<^verbatim>\<open>Sha1\<close> and \<^verbatim>\<open>Base64Encode\<close>.
\<close>

text \<open>The number a byte string denotes, most significant byte first, and the converse.\<close>

definition be_nat :: "byte list \<Rightarrow> nat" where
  "be_nat bs = foldl (\<lambda>a b. 256 * a + unat b) 0 bs"

definition be_bytes :: "nat \<Rightarrow> nat \<Rightarrow> byte list" where
  "be_bytes k n = map (\<lambda>i. of_nat (n div 256 ^ (k - 1 - i))) [0..<k]"

text \<open>FIPS 180-4, section 4.1.1: the functions \<open>f\<^sub>t\<close>, and section 4.2.1: the constants \<open>K\<^sub>t\<close>.\<close>

definition SHA1_Ch :: "u32 \<Rightarrow> u32 \<Rightarrow> u32 \<Rightarrow> u32" where
  "SHA1_Ch x y z = (x AND y) XOR (NOT x AND z)"

definition SHA1_Parity :: "u32 \<Rightarrow> u32 \<Rightarrow> u32 \<Rightarrow> u32" where
  "SHA1_Parity x y z = x XOR y XOR z"

definition SHA1_Maj :: "u32 \<Rightarrow> u32 \<Rightarrow> u32 \<Rightarrow> u32" where
  "SHA1_Maj x y z = (x AND y) XOR (x AND z) XOR (y AND z)"

definition SHA1_f :: "nat \<Rightarrow> u32 \<Rightarrow> u32 \<Rightarrow> u32 \<Rightarrow> u32" where
  "SHA1_f t = (if t \<le> 19 then SHA1_Ch else if t \<le> 39 then SHA1_Parity
               else if t \<le> 59 then SHA1_Maj else SHA1_Parity)"

definition SHA1_K :: "nat \<Rightarrow> u32" where
  "SHA1_K t = (if t \<le> 19 then 0x5a827999 else if t \<le> 39 then 0x6ed9eba1
               else if t \<le> 59 then 0x8f1bbcdc else 0xca62c1d6)"

text \<open>
  Section 5.1.1: the message, the bit 1 (the byte 0x80 for a message of whole bytes), the
  least number of zero bits that brings the length to 448 modulo 512 (here: of zero bytes,
  to 56 modulo 64), and the length of the message in bits as a 64-bit number. The standard
  stops at messages of 2 to the power 64 bits; beyond, \<open>be_bytes\<close> keeps the low 64 bits of the length.
\<close>

definition SHA1_padded :: "byte list \<Rightarrow> byte list" where
  "SHA1_padded M = M @ [0x80] @ replicate (nat ((55 - int (length M)) mod 64)) 0
                     @ be_bytes 8 (8 * length M)"

text \<open>Section 5.2.1: the padded message is parsed into blocks of 512 bits, 64 bytes.\<close>

definition SHA1_blocks :: "byte list \<Rightarrow> byte list list" where
  "SHA1_blocks msg = map (\<lambda>i. take 64 (drop (64 * i) msg)) [0..<length msg div 64]"

text \<open>
  Section 6.1.2, step 1: the message schedule of a block. \<open>W\<^sub>t\<close> is the \<open>t\<close>-th 32-bit word
  of the block for \<open>t\<close> below 16, and \<open>ROTL\<^sup>1(W\<^sub>t\<^sub>-\<^sub>3 \<oplus> W\<^sub>t\<^sub>-\<^sub>8 \<oplus> W\<^sub>t\<^sub>-\<^sub>1\<^sub>4 \<oplus> W\<^sub>t\<^sub>-\<^sub>1\<^sub>6)\<close> from there on.
\<close>

function SHA1_W :: "byte list \<Rightarrow> nat \<Rightarrow> u32" where
  "SHA1_W blk t =
     (if t < 16 then of_nat (be_nat (take 4 (drop (4 * t) blk)))
      else word_rotl 1 (SHA1_W blk (t - 3) XOR SHA1_W blk (t - 8) XOR SHA1_W blk (t - 14)
                          XOR SHA1_W blk (t - 16)))"
  by pat_completeness auto
termination
  by (relation "measure (\<lambda>(blk, t). t)") auto

declare SHA1_W.simps [simp del]

text \<open>Step 3: one round on the working variables a, b, c, d, e.\<close>

definition SHA1_round :: "byte list \<Rightarrow> nat \<Rightarrow> sha1_regs \<Rightarrow> sha1_regs" where
  "SHA1_round blk t v =
     (case v of (a, b, c, d, e) \<Rightarrow>
        (word_rotl 5 a + SHA1_f t b c d + e + SHA1_K t + SHA1_W blk t, a, word_rotl 30 b, c, d))"

text \<open>Steps 2 to 4: the hash value after a block, from the hash value before it.\<close>

definition SHA1_compress :: "byte list \<Rightarrow> sha1_regs \<Rightarrow> sha1_regs" where
  "SHA1_compress blk H =
     (case H of (h0, h1, h2, h3, h4) \<Rightarrow>
        (case fold (SHA1_round blk) [0..<80] H of
           (a, b, c, d, e) \<Rightarrow> (a + h0, b + h1, c + h2, d + h3, e + h4)))"

text \<open>Section 5.3.1: the initial hash value. Section 6.1: the digest of a message.\<close>

definition SHA1_H0 :: sha1_regs where
  "SHA1_H0 = (0x67452301, 0xefcdab89, 0x98badcfe, 0x10325476, 0xc3d2e1f0)"

definition SHA1_reference :: "byte list \<Rightarrow> byte list" where
  "SHA1_reference M =
     (case fold SHA1_compress (SHA1_blocks (SHA1_padded M)) SHA1_H0 of
        (h0, h1, h2, h3, h4) \<Rightarrow>
          be_bytes 4 (unat h0) @ be_bytes 4 (unat h1) @ be_bytes 4 (unat h2)
            @ be_bytes 4 (unat h3) @ be_bytes 4 (unat h4))"

text \<open>
  RFC 4648, section 4. Table 1, the alphabet: the value \<open>v\<close> below 64 is written as the
  \<open>v\<close>-th of these characters.
\<close>

definition Base64_alphabet :: string where
  "Base64_alphabet = ''ABCDEFGHIJKLMNOPQRSTUVWXYZabcdefghijklmnopqrstuvwxyz0123456789+/''"

text \<open>
  Three input bytes form a 24-bit group, read as four 6-bit values. A final group of one
  byte gives two characters and \<^verbatim>\<open>==\<close>, one of two bytes gives three characters and \<^verbatim>\<open>=\<close>,
  the missing bits being zero.
\<close>

fun Base64_reference :: "byte list \<Rightarrow> string" where
  "Base64_reference [] = []"
| "Base64_reference [a] =
     (let n = be_nat [a, 0, 0]
      in [Base64_alphabet ! (n div 262144), Base64_alphabet ! (n div 4096 mod 64), CHR ''='', CHR ''=''])"
| "Base64_reference [a, b] =
     (let n = be_nat [a, b, 0]
      in [Base64_alphabet ! (n div 262144), Base64_alphabet ! (n div 4096 mod 64),
          Base64_alphabet ! (n div 64 mod 64), CHR ''=''])"
| "Base64_reference (a # b # c # rest) =
     (let n = be_nat [a, b, c]
      in [Base64_alphabet ! (n div 262144), Base64_alphabet ! (n div 4096 mod 64),
          Base64_alphabet ! (n div 64 mod 64), Base64_alphabet ! (n mod 64)]
         @ Base64_reference rest)"

subsection \<open>Transport: the opening handshake (\<^verbatim>\<open>websocket_server.cpp\<close>)\<close>

text \<open>
  \<^verbatim>\<open>std::isspace\<close> and \<^verbatim>\<open>std::tolower\<close> on an \<^verbatim>\<open>unsigned char\<close>, in the "C" locale the server
  runs in (it never calls \<^verbatim>\<open>setlocale\<close>): the white-space characters are the space and the
  five controls 0x09 to 0x0d, and only the letters A to Z have a lower-case form.
\<close>

definition isspace :: "char \<Rightarrow> bool" where
  "isspace c \<longleftrightarrow> c \<in> set [CHR 0x20, CHR 0x09, CHR 0x0A, CHR 0x0B, CHR 0x0C, CHR 0x0D]"

definition tolower :: "char \<Rightarrow> char" where
  "tolower c = (case map_of (zip ''ABCDEFGHIJKLMNOPQRSTUVWXYZ'' ''abcdefghijklmnopqrstuvwxyz'') c of
                  Some l \<Rightarrow> l | None \<Rightarrow> c)"

definition ToLower :: "string \<Rightarrow> string" where
  "ToLower s = map tolower s"

text \<open>
  \<^verbatim>\<open>Trim\<close>: \<open>start\<close> moves right over white space, then \<open>end\<close> moves left over white space
  down to \<open>start\<close>; the result is the characters between them.
\<close>

definition Trim :: "string \<Rightarrow> string" where
  "Trim s = rev (dropWhile isspace (rev (dropWhile isspace s)))"

text \<open>
  \<^verbatim>\<open>std::getline(iss, line)\<close>, called until it fails: each call takes the characters up to
  the next line feed, which it consumes, and fails when nothing is left.
\<close>

function getlines :: "string \<Rightarrow> string list" where
  "getlines s =
     (if s = [] then []
      else takeWhile (\<lambda>c. c \<noteq> CHR 0x0A) s # getlines (drop 1 (dropWhile (\<lambda>c. c \<noteq> CHR 0x0A) s)))"
  by pat_completeness auto
termination
proof (relation "measure length")
  show "wf (measure length)" by simp
  fix s :: string
  assume "s \<noteq> []"
  then have "0 < length s" by simp
  moreover have "length (dropWhile (\<lambda>c. c \<noteq> CHR 0x0A) s) \<le> length s"
    by (rule length_dropWhile_le)
  ultimately have "length (dropWhile (\<lambda>c. c \<noteq> CHR 0x0A) s) - 1 < length s"
    by linarith
  then have "length (drop 1 (dropWhile (\<lambda>c. c \<noteq> CHR 0x0A) s)) < length s"
    by simp
  then show "(drop 1 (dropWhile (\<lambda>c. c \<noteq> CHR 0x0A) s), s) \<in> measure length" by simp
qed

declare getlines.simps [simp del]

text \<open>\<^verbatim>\<open>line.find(':')\<close>: the position of the first colon, if there is one.\<close>

definition find_colon :: "string \<Rightarrow> nat option" where
  "find_colon line = (if CHR '':'' \<in> set line then Some (length (takeWhile (\<lambda>c. c \<noteq> CHR '':'') line))
                      else None)"

text \<open>
  The header loop of \<^verbatim>\<open>PerformServerHandshake\<close> over the lines of the request, on the pair
  \<open>(secKey, isWebSocket)\<close>: a trailing carriage return is dropped, an empty line ends the
  loop, a line without a colon is skipped.
\<close>

fun HeaderLoop :: "string list \<Rightarrow> string \<times> bool \<Rightarrow> string \<times> bool" where
  "HeaderLoop [] st = st"
| "HeaderLoop (line0 # ls) st =
     (let line = (if line0 \<noteq> [] \<and> last line0 = CHR 0x0D then butlast line0 else line0)
      in if line = [] then st
         else (case find_colon line of
                 None \<Rightarrow> HeaderLoop ls st
               | Some colonPos \<Rightarrow>
                   let key = ToLower (Trim (take colonPos line));
                       val = Trim (drop (colonPos + 1) line)
                   in if key = ''sec-websocket-key'' then HeaderLoop ls (val, snd st)
                      else if key = ''upgrade'' \<and> ToLower val = ''websocket'' then HeaderLoop ls (fst st, True)
                      else HeaderLoop ls st))"

text \<open>
  \<^verbatim>\<open>PerformServerHandshake\<close>. The argument is what \<^verbatim>\<open>RecvUntil\<close> returned (\<open>None\<close>: it
  failed); the result is the response handed to \<^verbatim>\<open>SendAll\<close>, \<open>None\<close> where the function
  returns false without sending anything.
\<close>

definition CRLF :: string where
  "CRLF = [CHR 0x0D, CHR 0x0A]"

definition PerformServerHandshake :: "string option \<Rightarrow> string option" where
  "PerformServerHandshake received =
     (case received of
        None \<Rightarrow> None
      | Some request \<Rightarrow>
          (case HeaderLoop (getlines request) ([], False) of
             (secKey, isWebSocket) \<Rightarrow>
               if \<not> isWebSocket \<or> secKey = [] then None
               else Some (''HTTP/1.1 101 Switching Protocols'' @ CRLF
                          @ ''Upgrade: websocket'' @ CRLF
                          @ ''Connection: Upgrade'' @ CRLF
                          @ ''Sec-WebSocket-Accept: '' @ WebSocketAcceptKey secKey @ CRLF
                          @ CRLF)))"

section \<open>Part II: proofs\<close>

subsection \<open>Words and bytes\<close>

lemma bit_above_bound: "unat (L::'a::len word) < 2 ^ k \<Longrightarrow> k \<le> n \<Longrightarrow> \<not> bit L n"
proof -
  assume a: "unat L < 2 ^ k" and n: "k \<le> n"
  have "(2::nat) ^ k \<le> 2 ^ n" by (rule power_increasing) (use n in simp_all)
  with a have "unat L < 2 ^ n" by linarith
  then have "unat L div 2 ^ n = 0" by simp
  then have "\<not> bit (unat L) n" by (simp add: bit_iff_odd)
  then show ?thesis by (simp add: bit_unsigned_iff)
qed


lemma ff_mask: "(0xff :: 'a::len word) = mask 8"
  by (simp add: mask_eq_exp_minus_1)

lemma low_byte: "(ucast ((w::u64) AND 0xff) :: byte) = ucast w"
  unfolding ff_mask by (rule bit_eqI) (auto simp add: bit_simps)

lemma split_low_byte: "push_bit 8 (drop_bit 8 w) OR ucast (ucast w :: byte) = (w::u64)"
  by (rule bit_eqI) (auto simp add: bit_simps)

lemma top_byte: "ucast (ucast (drop_bit 56 w) :: byte) = drop_bit 56 (w::u64)"
  by (rule bit_eqI) (auto simp add: bit_simps dest: bit_imp_le_length)

lemma be16: "(L::u64) \<le> 0xffff \<Longrightarrow>
   push_bit 8 (ucast (ucast ((drop_bit 8 L) AND 0xff) :: byte)) OR ucast (ucast (L AND 0xff) :: byte) = L"
proof -
  assume "L \<le> 0xffff"
  then have "unat L < 2 ^ 16" by (simp add: word_le_nat_alt)
  then have hi: "\<And>n. bit L n \<Longrightarrow> n < 16"
    using bit_above_bound[of L 16] by (meson not_le_imp_less)
  have "ucast (ucast (drop_bit 8 L) :: byte) = drop_bit 8 L"
    by (rule bit_eqI) (auto simp add: bit_simps dest: hi)
  then show ?thesis by (simp add: low_byte split_low_byte)
qed

lemma be64: "fold (\<lambda>i len. (push_bit 8 len) OR ucast (map (\<lambda>i. ucast ((drop_bit (i * 8) L) AND 0xff) :: byte) [7, 6, 5, 4, 3, 2, 1, 0] ! i)) [0..<8] 0 = (L::u64)"
proof -
  have s: "\<And>k. push_bit 8 (drop_bit (k + 8) L) OR ucast (ucast (drop_bit k L) :: byte) = drop_bit k L"
    using split_low_byte[of "drop_bit k L" for k] by (simp add: drop_bit_drop_bit add.commute)
  have "[0..<8] = [0,1,2,3,4,5,6,7::nat]" by (simp add: upt_rec)
  then show ?thesis
    using s[of 48] s[of 40] s[of 32] s[of 24] s[of 16] s[of 8] s[of 0]
    by (simp add: low_byte top_byte)
qed


lemma RecvAll_append: "length xs = n \<Longrightarrow> RecvAll (xs @ rest) n = (Some xs, rest)"
  by (simp add: RecvAll_def)

lemma RecvAll_Cons2: "RecvAll (a # b # rest) 2 = (Some [a, b], rest)"
  by (simp add: RecvAll_def)

lemma bit_128: "bit (128::int) n \<longleftrightarrow> n = 7"
proof -
  have h: "(128::int) = push_bit 7 1" by simp
  show ?thesis
    by (subst h, simp only: bit_push_bit_iff bit_1_iff) auto
qed

lemma bit_15: "bit (15::int) n \<longleftrightarrow> n < 4"
proof -
  have h: "(15::int) = mask 4" by (simp add: mask_eq_exp_minus_1)
  show ?thesis
    by (subst h, simp only: bit_mask_iff) auto
qed

lemma bit_127: "bit (127::int) n \<longleftrightarrow> n < 7"
proof -
  have h: "(127::int) = mask 7" by (simp add: mask_eq_exp_minus_1)
  show ?thesis
    by (subst h, simp only: bit_mask_iff) auto
qed

lemma fin_bit_set: "((0x80 OR (x AND 0x0f)) AND 0x80 :: byte) \<noteq> 0"
proof -
  have "bit ((0x80 OR (x AND 0x0f)) AND 0x80 :: byte) 7"
    by (simp add: bit_and_iff bit_or_iff bit_128)
  then show ?thesis by auto
qed

lemma opcode_nibble: "((0x80 OR (x AND 0x0f)) AND 0x0f :: byte) = x AND 0x0f"
  by (rule bit_eqI) (auto simp add: bit_and_iff bit_or_iff bit_128 bit_15)

lemma small_len:
  assumes "(L::u64) \<le> 125"
  shows "(ucast L :: byte) AND 0x80 = 0" "(ucast ((ucast L :: byte) AND 0x7f) :: u64) = L"
proof -
  from assms have "unat L < 2 ^ 7" by (simp add: word_le_nat_alt)
  then have hi: "\<And>n. bit L n \<Longrightarrow> n < 7"
    using bit_above_bound[of L 7] by (meson not_le_imp_less)
  show "(ucast L :: byte) AND 0x80 = 0"
    by (rule bit_eqI) (auto simp add: bit_and_iff bit_ucast_iff bit_128 dest: hi)
  show "(ucast ((ucast L :: byte) AND 0x7f) :: u64) = L"
    by (rule bit_eqI) (auto simp add: bit_and_iff bit_ucast_iff bit_127 dest: hi)
qed

lemma byte_126: "((126::byte) AND 0x80 = 0)" "(ucast ((126::byte) AND 0x7f) :: u64) = 126"
  by simp_all

lemma byte_127: "((127::byte) AND 0x80 = 0)" "(ucast ((127::byte) AND 0x7f) :: u64) = 127"
  by simp_all

lemma ReadHeader_SendFrame:
  assumes "length body < 2 ^ 64"
  shows "ReadHeader (SendFrame opc body @ rest) = (Some (opc AND 0x0f, False, of_nat (length body)), body @ rest)"
proof -
  let ?L = "of_nat (length body) :: u64"
  consider (short) "?L \<le> 125" | (mid) "\<not> ?L \<le> 125" "?L \<le> 0xffff" | (long) "\<not> ?L \<le> 125" "\<not> ?L \<le> 0xffff"
    by blast
  then show ?thesis
  proof cases
    case short
    then have "?L \<noteq> 126" "?L \<noteq> 127" by auto
    with short show ?thesis
      by (simp add: ReadHeader_def SendFrame_def Let_def RecvAll_Cons2 fin_bit_set opcode_nibble small_len
          ReadExtendedLength_def)
  next
    case mid
    then show ?thesis
      by (simp add: ReadHeader_def SendFrame_def Let_def RecvAll_Cons2 fin_bit_set opcode_nibble byte_126
          ReadExtendedLength_def be16)
  next
    case long
    have "RecvAll (map (\<lambda>i. ucast ((drop_bit (i * 8) ?L) AND 0xff) :: byte) [7, 6, 5, 4, 3, 2, 1, 0] @ body @ rest) 8
          = (Some (map (\<lambda>i. ucast ((drop_bit (i * 8) ?L) AND 0xff) :: byte) [7, 6, 5, 4, 3, 2, 1, 0]), body @ rest)"
      by (rule RecvAll_append) simp
    with long show ?thesis
      using be64[of ?L]
      by (simp add: ReadHeader_def SendFrame_def Let_def RecvAll_Cons2 fin_bit_set opcode_nibble byte_127
          ReadExtendedLength_def del: fold_simps map_append list.map)
  qed
qed

lemma ReadFrame_SendFrame:
  assumes "length body \<le> unat maxPayloadBytes"
  shows "ReadFrame (SendFrame opc body @ rest) maxPayloadBytes
         = (Some \<lparr>fin = True, opcode = opc AND 0x0f, payload = body\<rparr>, rest)"
proof -
  have lt: "length body < 2 ^ 64"
    using assms unsigned_less[of maxPayloadBytes, where 'a = nat] by simp
  then have u: "unat (of_nat (length body) :: u64) = length body"
    by (simp add: unat_of_nat)
  have le: "\<not> (of_nat (length body) :: u64) > maxPayloadBytes"
    using assms u by (simp add: word_less_nat_alt)
  have z: "(of_nat (length body) :: u64) > 0 \<longleftrightarrow> body \<noteq> []"
    using u by (simp add: word_less_nat_alt)
  show ?thesis
    using le by (simp add: ReadFrame_def ReadHeader_SendFrame[OF lt] z u RecvAll_append RecvAll_def)
qed

text \<open>
  Reading a header from the wire: the length the reader computes with shifts and ORs is the
  big-endian value of the extended-length bytes.
\<close>

lemma be_step:
  assumes "unat (w::u64) < 2 ^ 56"
  shows "unat (push_bit 8 w OR ucast (e::byte)) = 256 * unat w + unat e"
proof -
  have d: "push_bit 8 w OR ucast e = push_bit 8 w + ucast e"
    by (rule disjunctive_add[symmetric]) (auto simp add: bit_simps dest: bit_imp_le_length)
  have e: "unat e < 256" using unsigned_less[of e, where 'a = nat] by simp
  have ue: "unat (ucast e :: u64) = unat e"
    using e by (simp add: unsigned_ucast_eq take_bit_nat_eq_self_iff)
  have "unat (w * 256) = unat w * unat (256 :: u64)"
    using assms by (subst unat_mult_lem[THEN iffD1]) simp_all
  then have p: "unat (push_bit 8 w) = 256 * unat w"
    by (simp add: push_bit_eq_mult)
  have "unat (push_bit 8 w + ucast e) = unat (push_bit 8 w) + unat (ucast e :: u64)"
    using assms e by (subst unat_add_lem[THEN iffD1]) (simp_all add: p ue)
  with d p ue show ?thesis by simp
qed

lemma be_step_bound:
  assumes "unat (w::u64) < 256 ^ k" and "k \<le> 7"
  shows "unat (push_bit 8 w OR ucast (e::byte)) = 256 * unat w + unat e"
    and "unat (push_bit 8 w OR ucast (e::byte)) < 256 ^ Suc k"
proof -
  have "(256::nat) ^ k \<le> 256 ^ 7" using assms(2) by (intro power_increasing) simp_all
  with assms(1) have "unat w < 2 ^ 56" by simp
  then show 1: "unat (push_bit 8 w OR ucast (e::byte)) = 256 * unat w + unat e" by (rule be_step)
  have e: "unat e < 256" using unsigned_less[of e, where 'a = nat] by simp
  from assms(1) have "256 * unat w + 256 \<le> 256 * 256 ^ k" by simp
  with e 1 show "unat (push_bit 8 w OR ucast (e::byte)) < 256 ^ Suc k" by simp
qed

lemma be_fold8:
  fixes e0 :: byte
  shows "unat (fold (\<lambda>i len. (push_bit 8 len) OR ucast ([e0, e1, e2, e3, e4, e5, e6, e7] ! i)) [0..<8] (0::u64))
         = foldl (\<lambda>a b. 256 * a + unat b) 0 [e0, e1, e2, e3, e4, e5, e6, e7]"
proof -
  have u: "[0..<8] = [0,1,2,3,4,5,6,7::nat]" by (simp add: upt_rec)
  define w1 :: u64 where "w1 = push_bit 8 0 OR ucast e0"
  define w2 :: u64 where "w2 = push_bit 8 w1 OR ucast e1"
  define w3 :: u64 where "w3 = push_bit 8 w2 OR ucast e2"
  define w4 :: u64 where "w4 = push_bit 8 w3 OR ucast e3"
  define w5 :: u64 where "w5 = push_bit 8 w4 OR ucast e4"
  define w6 :: u64 where "w6 = push_bit 8 w5 OR ucast e5"
  define w7 :: u64 where "w7 = push_bit 8 w6 OR ucast e6"
  define w8 :: u64 where "w8 = push_bit 8 w7 OR ucast e7"
  have b0: "unat (0::u64) < 256 ^ 0" by simp
  note s1 = be_step_bound[OF b0, of e0, folded w1_def]
  note s2 = be_step_bound[OF s1(2), of e1, folded w2_def]
  note s3 = be_step_bound[OF s2(2), of e2, folded w3_def]
  note s4 = be_step_bound[OF s3(2), of e3, folded w4_def]
  note s5 = be_step_bound[OF s4(2), of e4, folded w5_def]
  note s6 = be_step_bound[OF s5(2), of e5, folded w6_def]
  note s7 = be_step_bound[OF s6(2), of e6, folded w7_def]
  note s8 = be_step_bound[OF s7(2), of e7, folded w8_def]
  have "fold (\<lambda>i len. (push_bit 8 len) OR ucast ([e0, e1, e2, e3, e4, e5, e6, e7] ! i)) [0..<8] (0::u64) = w8"
    unfolding u w8_def w7_def w6_def w5_def w4_def w3_def w2_def w1_def by simp
  then show ?thesis
    using s1(1) s2(1) s3(1) s4(1) s5(1) s6(1) s7(1) s8(1) by simp
qed


lemma bit7: "(b::byte) AND 0x80 \<noteq> 0 \<longleftrightarrow> bit b 7"
proof
  assume "b AND 0x80 \<noteq> 0"
  then obtain n where "bit (b AND 0x80) n" by (auto simp add: bit_eq_iff)
  then show "bit b 7" by (auto simp add: bit_and_iff bit_128)
next
  assume "bit b 7"
  then have "bit (b AND 0x80) 7" by (simp add: bit_and_iff bit_128)
  then show "b AND 0x80 \<noteq> 0" by auto
qed

lemma list2: "length xs = 2 \<Longrightarrow> \<exists>a b. xs = [a, b]"
  by (cases xs; cases "tl xs") auto

lemma list8: "length xs = 8 \<Longrightarrow> \<exists>a b c d e f g h. xs = [a, b, c, d, e, f, g, h]"
  by (auto simp add: numeral_eq_Suc length_Suc_conv)

lemma ReadHeader_wire:
  assumes fin: "bit b0 7"
    and enc: "(unat (b1 AND 0x7f) \<le> 125 \<and> ext = [] \<and> n = unat (b1 AND 0x7f))
            \<or> (b1 AND 0x7f = 126 \<and> length ext = 2 \<and> n = foldl (\<lambda>a b. 256 * a + unat b) 0 ext)
            \<or> (b1 AND 0x7f = 127 \<and> length ext = 8 \<and> n = foldl (\<lambda>a b. 256 * a + unat b) 0 ext)"
  shows "\<exists>L. ReadHeader (b0 # b1 # ext @ rest) = (Some (b0 AND 0x0f, bit b1 7, L), rest) \<and> unat L = n"
proof -
  have f: "b0 AND 0x80 \<noteq> 0" using fin by (simp add: bit7)
  have uc: "unat (ucast (b1 AND 0x7f) :: u64) = unat (b1 AND 0x7f)"
    using unsigned_less[of "b1 AND 0x7f", where 'a = nat]
    by (simp add: unsigned_ucast_eq take_bit_nat_eq_self_iff)
  from enc consider
      (short) "unat (b1 AND 0x7f) \<le> 125" "ext = []" "n = unat (b1 AND 0x7f)"
    | (mid) "b1 AND 0x7f = 126" "length ext = 2" "n = foldl (\<lambda>a b. 256 * a + unat b) 0 ext"
    | (long) "b1 AND 0x7f = 127" "length ext = 8" "n = foldl (\<lambda>a b. 256 * a + unat b) 0 ext"
    by blast
  then show ?thesis
  proof cases
    case short
    from short(1) uc have "(ucast (b1 AND 0x7f) :: u64) \<noteq> 126" "(ucast (b1 AND 0x7f) :: u64) \<noteq> 127"
      by (auto simp add: word_eq_iff_unsigned[where 'a = nat])
    with short f uc show ?thesis
      by (simp add: ReadHeader_def RecvAll_Cons2 Let_def ReadExtendedLength_def bit7)
  next
    case mid
    from mid(2) obtain e0 e1 where e: "ext = [e0, e1]" using list2 by blast
    have b: "unat (0::u64) < 256 ^ 0" by simp
    note s1 = be_step_bound[OF b, of e0]
    note s2 = be_step_bound[OF s1(2), of e1]
    from s1(1) s2(1) have "unat (push_bit 8 (ucast e0) OR ucast e1 :: u64) = 256 * unat e0 + unat e1"
      by simp
    with mid f e show ?thesis
      by (simp add: ReadHeader_def RecvAll_Cons2 Let_def ReadExtendedLength_def bit7)
  next
    case long
    from long(2) obtain e0 e1 e2 e3 e4 e5 e6 e7 where e: "ext = [e0, e1, e2, e3, e4, e5, e6, e7]"
      using list8 by blast
    have r: "RecvAll (ext @ rest) 8 = (Some ext, rest)" using long(2) by (rule RecvAll_append)
    have "ReadExtendedLength (ext @ rest) 127
          = (Some (fold (\<lambda>i len. (push_bit 8 len) OR ucast (ext ! i)) [0..<8] 0), rest)"
      by (simp add: ReadExtendedLength_def r del: fold_simps)
    moreover have "(ucast (b1 AND 0x7f) :: u64) = 127" using long(1) by simp
    ultimately have "ReadHeader (b0 # b1 # ext @ rest)
          = (Some (b0 AND 0x0f, bit b1 7, fold (\<lambda>i len. (push_bit 8 len) OR ucast (ext ! i)) [0..<8] 0), rest)"
      using f by (simp add: ReadHeader_def RecvAll_Cons2 Let_def bit7 del: fold_simps)
    then show ?thesis
      using be_fold8[of e0 e1 e2 e3 e4 e5 e6 e7] long(3) e by simp
  qed
qed


lemma ReadFrame_wire:
  assumes fin: "bit b0 7"
    and enc: "(unat (b1 AND 0x7f) \<le> 125 \<and> ext = [] \<and> length body = unat (b1 AND 0x7f))
            \<or> (b1 AND 0x7f = 126 \<and> length ext = 2 \<and> length body = foldl (\<lambda>a b. 256 * a + unat b) 0 ext)
            \<or> (b1 AND 0x7f = 127 \<and> length ext = 8 \<and> length body = foldl (\<lambda>a b. 256 * a + unat b) 0 ext)"
    and cap: "length body \<le> unat maxPayloadBytes"
    and key: "length maskKey = (if bit b1 7 then 4 else 0)"
  shows "ReadFrame (b0 # b1 # ext @ maskKey @ body @ rest) maxPayloadBytes
         = (Some \<lparr>fin = True, opcode = b0 AND 0x0f,
                  payload = (if bit b1 7 then map (\<lambda>i. (body ! i) XOR (maskKey ! (i mod 4))) [0..<length body]
                             else body)\<rparr>, rest)"
proof -
  from ReadHeader_wire[OF fin enc, of "maskKey @ body @ rest"] obtain L where
    h: "ReadHeader (b0 # b1 # ext @ maskKey @ body @ rest) = (Some (b0 AND 0x0f, bit b1 7, L), maskKey @ body @ rest)"
    and u: "unat L = length body" by blast
  have le: "\<not> L > maxPayloadBytes" using cap u by (simp add: word_less_nat_alt)
  have z: "L > 0 \<longleftrightarrow> body \<noteq> []" using u by (simp add: word_less_nat_alt)
  show ?thesis
  proof (cases "bit b1 7")
    case True
    with key have "RecvAll (maskKey @ body @ rest) 4 = (Some maskKey, body @ rest)"
      by (intro RecvAll_append) simp
    with True le show ?thesis
      by (simp add: ReadFrame_def h z u RecvAll_append unmask_def)
  next
    case False
    with key have k: "maskKey = []" by simp
    from h have "ReadHeader (b0 # b1 # ext @ body @ rest) = (Some (b0 AND 0x0f, bit b1 7, L), body @ rest)"
      by (simp add: k)
    with False le show ?thesis
      by (simp add: ReadFrame_def k z u RecvAll_append)
  qed
qed

lemma ReadFrame_wire_over_cap:
  assumes fin: "bit b0 7"
    and enc: "(unat (b1 AND 0x7f) \<le> 125 \<and> ext = [] \<and> n = unat (b1 AND 0x7f))
            \<or> (b1 AND 0x7f = 126 \<and> length ext = 2 \<and> n = foldl (\<lambda>a b. 256 * a + unat b) 0 ext)
            \<or> (b1 AND 0x7f = 127 \<and> length ext = 8 \<and> n = foldl (\<lambda>a b. 256 * a + unat b) 0 ext)"
    and over: "unat maxPayloadBytes < n"
  shows "ReadFrame (b0 # b1 # ext @ rest) maxPayloadBytes = (None, rest)"
proof -
  from ReadHeader_wire[OF fin enc, of rest] obtain L where
    h: "ReadHeader (b0 # b1 # ext @ rest) = (Some (b0 AND 0x0f, bit b1 7, L), rest)"
    and u: "unat L = n" by blast
  have "L > maxPayloadBytes" using over u by (simp add: word_less_nat_alt)
  then show ?thesis by (simp add: ReadFrame_def h)
qed

lemma ReadFrame_wire_no_fin:
  assumes "\<not> bit b0 7"
  shows "ReadFrame (b0 # b1 # rest) maxPayloadBytes = (None, rest)"
  using assms by (simp add: ReadFrame_def ReadHeader_def RecvAll_Cons2 Let_def bit7)

subsection \<open>The frame codec\<close>

text \<open>
  The codec's round trip, for every opcode and every payload the cap admits: the frame
  \<^verbatim>\<open>SendFrame\<close> writes is read back by \<^verbatim>\<open>ReadFrame\<close> with FIN set, the opcode's low nibble
  and the same payload, and nothing of the following bytes is consumed.
\<close>

lemma ReadFrame_SendFrame_Text_Binary:
  assumes "opc = Text \<or> opc = Binary" and "length body \<le> unat maxPayloadBytes"
  shows "ReadFrame (SendFrame opc body @ rest) maxPayloadBytes
         = (Some \<lparr>fin = True, opcode = opc, payload = body\<rparr>, rest)"
proof -
  from assms(1) have "opc AND 0x0f = opc" by (auto simp add: Text_def Binary_def)
  with ReadFrame_SendFrame[OF assms(2), of opc rest] show ?thesis by simp
qed

text \<open>
  C6. For every opcode in {Text, Binary} and every payload whose length is one of 0, 1, 125,
  126, 65535, 65536 (and within the reader's cap), decoding with \<^verbatim>\<open>ReadFrame\<close> the frame that
  \<^verbatim>\<open>SendFrame\<close> encodes yields the same opcode and the same payload bytes, with fin = true.
\<close>

theorem C6_frame_roundtrip:
  assumes "opc \<in> {Text, Binary}"
    and "length body \<in> {0, 1, 125, 126, 65535, 65536}"
    and "length body \<le> unat maxPayloadBytes"
  shows "ReadFrame (SendFrame opc body @ rest) maxPayloadBytes
         = (Some \<lparr>fin = True, opcode = opc, payload = body\<rparr>, rest)"
  using assms(1,3) by (intro ReadFrame_SendFrame_Text_Binary) auto

theorem C6_frame_roundtrip_witness:
  "Binary \<in> {Text, Binary} \<and> length (replicate 126 (0x5a :: byte)) \<in> {0, 1, 125, 126, 65535, 65536}
   \<and> length (replicate 126 (0x5a :: byte)) \<le> unat kMaxPayload
   \<and> ReadFrame (SendFrame Binary (replicate 126 0x5a) @ [0x81, 0x00]) kMaxPayload
       = (Some \<lparr>fin = True, opcode = Binary, payload = replicate 126 0x5a\<rparr>, [0x81, 0x00])"
proof -
  have a: "Binary \<in> {Text, Binary}" by simp
  have b: "length (replicate 126 (0x5a :: byte)) \<in> {0, 1, 125, 126, 65535, 65536}" by simp
  have c: "length (replicate 126 (0x5a :: byte)) \<le> unat kMaxPayload" by (simp add: kMaxPayload_def)
  from C6_frame_roundtrip[OF a b c] a b c show ?thesis by blast
qed

text \<open>
  C9. A frame on the wire with the FIN bit set (bit 7 of the first byte), the mask bit clear
  (bit 7 of the second byte), and a payload length, declared in the 7-bit field or in the
  two or eight big-endian bytes that follow it, that is within the cap and is the number of
  body bytes that follow: \<^verbatim>\<open>ReadFrame\<close> succeeds, its payload is the body bytes exactly as
  received (no mask key is read and no byte is XORed), its opcode is the low nibble of the
  first byte, and the bytes after the body stay unread.
\<close>

theorem C9_unmasked_frame_accepted:
  assumes "bit b0 7" and "\<not> bit b1 7"
    and "(unat (b1 AND 0x7f) \<le> 125 \<and> ext = [] \<and> length body = unat (b1 AND 0x7f))
       \<or> (b1 AND 0x7f = 126 \<and> length ext = 2 \<and> length body = foldl (\<lambda>a b. 256 * a + unat b) 0 ext)
       \<or> (b1 AND 0x7f = 127 \<and> length ext = 8 \<and> length body = foldl (\<lambda>a b. 256 * a + unat b) 0 ext)"
    and "length body \<le> unat maxPayloadBytes"
  shows "ReadFrame (b0 # b1 # ext @ body @ rest) maxPayloadBytes
         = (Some \<lparr>fin = True, opcode = b0 AND 0x0f, payload = body\<rparr>, rest)"
  using ReadFrame_wire[OF assms(1) assms(3) assms(4), of "[]" rest] assms(2) by simp

theorem C9_unmasked_frame_accepted_witness:
  "ReadFrame [0x81, 0x02, 0x48, 0x69, 0x88] kMaxPayload
       = (Some \<lparr>fin = True, opcode = Text, payload = [0x48, 0x69]\<rparr>, [0x88])
   \<and> ReadFrame [0x82, 0x7e, 0x00, 0x03, 0x0a, 0x0b, 0x0c, 0x88] kMaxPayload
       = (Some \<lparr>fin = True, opcode = Binary, payload = [0x0a, 0x0b, 0x0c]\<rparr>, [0x88])
   \<and> ReadFrame ([0x82, 0x7e, 0x01, 0x00] @ replicate 256 0x5a @ [0x88]) kMaxPayload
       = (Some \<lparr>fin = True, opcode = Binary, payload = replicate 256 0x5a\<rparr>, [0x88])
   \<and> ReadFrame ([0x82, 0x7f, 0, 0, 0, 0, 0, 0x01, 0, 0x01] @ replicate 65537 0x5a @ [0x88]) kMaxPayload
       = (Some \<lparr>fin = True, opcode = Binary, payload = replicate 65537 0x5a\<rparr>, [0x88])"
proof -
  have 1: "ReadFrame [0x81, 0x02, 0x48, 0x69, 0x88] kMaxPayload
       = (Some \<lparr>fin = True, opcode = Text, payload = [0x48, 0x69]\<rparr>, [0x88])"
    using C9_unmasked_frame_accepted[of "0x81" "0x02" "[]" "[0x48, 0x69]" kMaxPayload "[0x88]"]
    by (simp add: kMaxPayload_def Text_def)
  have 2: "ReadFrame [0x82, 0x7e, 0x00, 0x03, 0x0a, 0x0b, 0x0c, 0x88] kMaxPayload
       = (Some \<lparr>fin = True, opcode = Binary, payload = [0x0a, 0x0b, 0x0c]\<rparr>, [0x88])"
    using C9_unmasked_frame_accepted[of "0x82" "0x7e" "[0x00, 0x03]" "[0x0a, 0x0b, 0x0c]" kMaxPayload "[0x88]"]
    by (simp add: kMaxPayload_def Binary_def)
  have 3: "ReadFrame ([0x82, 0x7e, 0x01, 0x00] @ replicate 256 0x5a @ [0x88]) kMaxPayload
       = (Some \<lparr>fin = True, opcode = Binary, payload = replicate 256 0x5a\<rparr>, [0x88])"
    using C9_unmasked_frame_accepted[of "0x82" "0x7e" "[0x01, 0x00]" "replicate 256 0x5a" kMaxPayload "[0x88]"]
    by (simp add: kMaxPayload_def Binary_def)
  have 4: "ReadFrame ([0x82, 0x7f, 0, 0, 0, 0, 0, 0x01, 0, 0x01] @ replicate 65537 0x5a @ [0x88]) kMaxPayload
       = (Some \<lparr>fin = True, opcode = Binary, payload = replicate 65537 0x5a\<rparr>, [0x88])"
    using C9_unmasked_frame_accepted[of "0x82" "0x7f" "[0, 0, 0, 0, 0, 0x01, 0, 0x01]" "replicate 65537 0x5a"
        kMaxPayload "[0x88]"]
    by (simp add: kMaxPayload_def Binary_def)
  from 1 2 3 4 show ?thesis by blast
qed

text \<open>
  C7. For a frame on the wire whose FIN bit is set and whose payload length is declared in
  the 7-bit field, or in the two or eight big-endian bytes that follow it (7-bit field 126 or
  127): when the declared length equals the cap and the stream holds the mask key (four
  bytes if the mask bit is set, none otherwise) and that many body bytes, \<^verbatim>\<open>ReadFrame\<close>
  accepts the frame and reads the whole body (XORed with the key when masked), leaving the
  bytes after it unread; when the declared length exceeds the cap, \<^verbatim>\<open>ReadFrame\<close> fails with
  exactly the two header bytes and the extended-length bytes consumed, whatever follows
  them, so neither the mask key nor a payload byte is read; and a frame whose FIN bit is
  clear is rejected after its two header bytes.
\<close>

theorem C7_payload_cap:
  "(bit b0 7
      \<and> ((unat (b1 AND 0x7f) \<le> 125 \<and> ext = [] \<and> length body = unat (b1 AND 0x7f))
         \<or> (b1 AND 0x7f = 126 \<and> length ext = 2 \<and> length body = foldl (\<lambda>a b. 256 * a + unat b) 0 ext)
         \<or> (b1 AND 0x7f = 127 \<and> length ext = 8 \<and> length body = foldl (\<lambda>a b. 256 * a + unat b) 0 ext))
      \<and> length body = unat maxPayloadBytes
      \<and> length maskKey = (if bit b1 7 then 4 else 0)
    \<longrightarrow> ReadFrame (b0 # b1 # ext @ maskKey @ body @ rest) maxPayloadBytes
          = (Some \<lparr>fin = True, opcode = b0 AND 0x0f,
                   payload = (if bit b1 7
                              then map (\<lambda>i. (body ! i) XOR (maskKey ! (i mod 4))) [0..<length body]
                              else body)\<rparr>, rest))
   \<and> (bit b0 7
      \<and> ((unat (b1 AND 0x7f) \<le> 125 \<and> ext = [] \<and> n = unat (b1 AND 0x7f))
         \<or> (b1 AND 0x7f = 126 \<and> length ext = 2 \<and> n = foldl (\<lambda>a b. 256 * a + unat b) 0 ext)
         \<or> (b1 AND 0x7f = 127 \<and> length ext = 8 \<and> n = foldl (\<lambda>a b. 256 * a + unat b) 0 ext))
      \<and> unat maxPayloadBytes < n
    \<longrightarrow> ReadFrame (b0 # b1 # ext @ rest) maxPayloadBytes = (None, rest))
   \<and> (\<not> bit b0 7 \<longrightarrow> ReadFrame (b0 # b1 # rest) maxPayloadBytes = (None, rest))"
proof (intro conjI impI)
  assume a: "bit b0 7
      \<and> ((unat (b1 AND 0x7f) \<le> 125 \<and> ext = [] \<and> length body = unat (b1 AND 0x7f))
         \<or> (b1 AND 0x7f = 126 \<and> length ext = 2 \<and> length body = foldl (\<lambda>a b. 256 * a + unat b) 0 ext)
         \<or> (b1 AND 0x7f = 127 \<and> length ext = 8 \<and> length body = foldl (\<lambda>a b. 256 * a + unat b) 0 ext))
      \<and> length body = unat maxPayloadBytes
      \<and> length maskKey = (if bit b1 7 then 4 else 0)"
  then have c: "length body \<le> unat maxPayloadBytes" by simp
  from a show "ReadFrame (b0 # b1 # ext @ maskKey @ body @ rest) maxPayloadBytes
          = (Some \<lparr>fin = True, opcode = b0 AND 0x0f,
                   payload = (if bit b1 7
                              then map (\<lambda>i. (body ! i) XOR (maskKey ! (i mod 4))) [0..<length body]
                              else body)\<rparr>, rest)"
    by (intro ReadFrame_wire c) blast+
next
  assume a: "bit b0 7
      \<and> ((unat (b1 AND 0x7f) \<le> 125 \<and> ext = [] \<and> n = unat (b1 AND 0x7f))
         \<or> (b1 AND 0x7f = 126 \<and> length ext = 2 \<and> n = foldl (\<lambda>a b. 256 * a + unat b) 0 ext)
         \<or> (b1 AND 0x7f = 127 \<and> length ext = 8 \<and> n = foldl (\<lambda>a b. 256 * a + unat b) 0 ext))
      \<and> unat maxPayloadBytes < n"
  then show "ReadFrame (b0 # b1 # ext @ rest) maxPayloadBytes = (None, rest)"
    by (intro ReadFrame_wire_over_cap[where n = n]) blast+
next
  assume "\<not> bit b0 7"
  then show "ReadFrame (b0 # b1 # rest) maxPayloadBytes = (None, rest)"
    by (rule ReadFrame_wire_no_fin)
qed

theorem C7_payload_cap_witness:
  "ReadFrame ([0x82, 0x7f, 0, 0, 0, 0, 0, 0x40, 0, 0] @ replicate 4194304 0x11 @ [0x88]) kMaxPayload
     = (Some \<lparr>fin = True, opcode = Binary, payload = replicate 4194304 0x11\<rparr>, [0x88])
   \<and> ReadFrame [0x81, 0x83, 0x01, 0x02, 0x03, 0x04, 0x10, 0x20, 0x30, 0x88] 3
     = (Some \<lparr>fin = True, opcode = Text, payload = [0x11, 0x22, 0x33]\<rparr>, [0x88])
   \<and> ReadFrame [0x82, 0xff, 0, 0, 0, 0, 0, 0x40, 0, 1, 0xa, 0xb, 0xc, 0xd, 0x11] kMaxPayload
       = (None, [0xa, 0xb, 0xc, 0xd, 0x11])
   \<and> ReadFrame [0x82, 0x7f, 0, 0, 0, 1, 0, 0, 0, 2, 0x11] kMaxPayload = (None, [0x11])
   \<and> ReadFrame [0x82, 0x7e, 0x03, 0xe9, 0x11] 1000 = (None, [0x11])
   \<and> ReadFrame [0x82, 0x0b, 0x11] 10 = (None, [0x11])
   \<and> ReadFrame [0x02, 0x01, 0x11] kMaxPayload = (None, [0x11])"
proof -
  have 1: "ReadFrame ([0x82, 0x7f, 0, 0, 0, 0, 0, 0x40, 0, 0] @ replicate 4194304 0x11 @ [0x88]) kMaxPayload
     = (Some \<lparr>fin = True, opcode = Binary, payload = replicate 4194304 0x11\<rparr>, [0x88])"
    using C7_payload_cap[of "0x82" "0x7f" "[0, 0, 0, 0, 0, 0x40, 0, 0]" "replicate 4194304 0x11"
        kMaxPayload "[]" "[0x88]"]
    by (simp add: kMaxPayload_def Binary_def)
  have 2: "ReadFrame [0x81, 0x83, 0x01, 0x02, 0x03, 0x04, 0x10, 0x20, 0x30, 0x88] 3
     = (Some \<lparr>fin = True, opcode = Text, payload = [0x11, 0x22, 0x33]\<rparr>, [0x88])"
    using C7_payload_cap[of "0x81" "0x83" "[]" "[0x10, 0x20, 0x30]" 3 "[0x01, 0x02, 0x03, 0x04]" "[0x88]"]
    by (simp add: Text_def upt_rec)
  have 3: "ReadFrame [0x82, 0xff, 0, 0, 0, 0, 0, 0x40, 0, 1, 0xa, 0xb, 0xc, 0xd, 0x11] kMaxPayload
       = (None, [0xa, 0xb, 0xc, 0xd, 0x11])"
    using C7_payload_cap[of "0x82" "0xff" "[0, 0, 0, 0, 0, 0x40, 0, 1]" _ kMaxPayload _ "[0xa, 0xb, 0xc, 0xd, 0x11]" 4194305]
    by (simp add: kMaxPayload_def)
  have 4: "ReadFrame [0x82, 0x7f, 0, 0, 0, 1, 0, 0, 0, 2, 0x11] kMaxPayload = (None, [0x11])"
    using C7_payload_cap[of "0x82" "0x7f" "[0, 0, 0, 1, 0, 0, 0, 2]" _ kMaxPayload _ "[0x11]" 4294967298]
    by (simp add: kMaxPayload_def)
  have 5: "ReadFrame [0x82, 0x7e, 0x03, 0xe9, 0x11] 1000 = (None, [0x11])"
    using C7_payload_cap[of "0x82" "0x7e" "[0x03, 0xe9]" _ 1000 _ "[0x11]" 1001]
    by simp
  have 6: "ReadFrame [0x82, 0x0b, 0x11] 10 = (None, [0x11])"
    using C7_payload_cap[of "0x82" "0x0b" "[]" _ 10 _ "[0x11]" 11]
    by simp
  have 7: "ReadFrame [0x02, 0x01, 0x11] kMaxPayload = (None, [0x11])"
    using C7_payload_cap[of "0x02" "0x01" _ _ kMaxPayload _ "[0x11]"]
    by simp
  from 1 2 3 4 5 6 7 show ?thesis by blast
qed

subsection \<open>SHA-1 and Base64: evaluation lemmas\<close>

lemma Sha1_pad_step: "length msg mod 64 \<noteq> 56 \<Longrightarrow> Sha1_pad msg = Sha1_pad (msg @ [0x00])"
  by (subst Sha1_pad.simps) simp

lemma Sha1_pad_done: "length msg mod 64 = 56 \<Longrightarrow> Sha1_pad msg = msg"
  by (subst Sha1_pad.simps) simp

lemma Sha1_chunks_step:
  "chunk < length msg \<Longrightarrow> Sha1_chunks msg chunk st = Sha1_chunks msg (chunk + 64) (Sha1_chunk msg chunk st)"
  by (subst Sha1_chunks.simps) simp

lemma Sha1_chunks_done: "\<not> chunk < length msg \<Longrightarrow> Sha1_chunks msg chunk st = st"
  by (subst Sha1_chunks.simps) simp

lemma Base64Encode_from_done: "\<not> i < length data \<Longrightarrow> Base64Encode_from data i out = out"
  by (subst Base64Encode_from.simps) simp

text \<open>
  The rounds read \<open>w[i]\<close> for i = 0, 1, ..., 79 in order, so they run over the schedule
  paired with its indices.
\<close>

lemma fold_Sha1_round:
  "fold (Sha1_round w) [0..<length w] r = fold (\<lambda>(i, x). Sha1_step i x) (zip [0..<length w] w) r"
proof -
  have "zip [0..<length w] w = map (\<lambda>i. (i, w ! i)) [0..<length w]"
    by (rule nth_equalityI) simp_all
  moreover have "Sha1_round w = (\<lambda>i. (\<lambda>(i, x). Sha1_step i x) (i, w ! i))"
    by (simp add: Sha1_round_def fun_eq_iff)
  ultimately show ?thesis
    by (simp add: fold_map comp_def)
qed

text \<open>
  The schedule's extension writes position \<open>i\<close> from the four positions 3, 8, 14 and 16
  before it; with the words so far kept newest first, these are the entries 2, 7, 13, 15.
\<close>

fun Sha1_sched_rev :: "u32 list \<Rightarrow> nat \<Rightarrow> u32 list" where
  "Sha1_sched_rev rs 0 = rs"
| "Sha1_sched_rev rs (Suc n) =
     Sha1_sched_rev (leftRotate (rs ! 2 XOR rs ! 7 XOR rs ! 13 XOR rs ! 15) 1 # rs) n"

lemma Sha1_sched_rev_numeral:
  "Sha1_sched_rev rs (numeral k) =
     Sha1_sched_rev (leftRotate (rs ! 2 XOR rs ! 7 XOR rs ! 13 XOR rs ! 15) 1 # rs) (pred_numeral k)"
  by (simp add: numeral_eq_Suc)

lemma fold_Sha1_expand_step:
  "length pre = m \<Longrightarrow> 16 \<le> m \<Longrightarrow>
   fold Sha1_expand_step [m..<m + length post] (pre @ post) = rev (Sha1_sched_rev (rev pre) (length post))"
proof (induction post arbitrary: pre m)
  case Nil
  then show ?case by simp
next
  case (Cons p post)
  let ?v = "leftRotate (pre ! (m - 3) XOR pre ! (m - 8) XOR pre ! (m - 14) XOR pre ! (m - 16)) 1"
  have step: "Sha1_expand_step m (pre @ p # post) = (pre @ [?v]) @ post"
    using Cons.prems by (simp add: Sha1_expand_step_def nth_append list_update_append)
  have idx: "rev pre ! 2 = pre ! (m - 3)" "rev pre ! 7 = pre ! (m - 8)"
    "rev pre ! 13 = pre ! (m - 14)" "rev pre ! 15 = pre ! (m - 16)"
    using Cons.prems by (simp_all add: rev_nth)
  have "[m..<m + length (p # post)] = m # [Suc m..<Suc m + length post]"
    by (simp add: upt_rec)
  then have "fold Sha1_expand_step [m..<m + length (p # post)] (pre @ p # post)
        = fold Sha1_expand_step [Suc m..<Suc m + length post] ((pre @ [?v]) @ post)"
    by (simp only: fold_simps comp_apply step)
  also have "\<dots> = rev (Sha1_sched_rev (rev (pre @ [?v])) (length post))"
    using Cons.prems by (intro Cons.IH) simp_all
  also have "\<dots> = rev (Sha1_sched_rev (rev pre) (length (p # post)))"
    by (simp add: idx)
  finally show ?case .
qed

lemma Sha1_expand_eval:
  assumes "length w = 80"
  shows "Sha1_expand w = rev (Sha1_sched_rev (rev (take 16 w)) 64)"
proof -
  have "fold Sha1_expand_step [16..<16 + length (drop 16 w)] (take 16 w @ drop 16 w)
        = rev (Sha1_sched_rev (rev (take 16 w)) (length (drop 16 w)))"
    using assms by (intro fold_Sha1_expand_step) simp_all
  then show ?thesis using assms by (simp add: Sha1_expand_def)
qed

subsection \<open>The accept key of the handshake's test vector\<close>

lemma replicate_80: "replicate 80 (0::u32) = [0, 0, 0, 0, 0, 0, 0, 0, 0, 0, 0, 0, 0, 0, 0, 0, 0, 0, 0, 0, 0, 0, 0, 0, 0, 0, 0, 0, 0, 0, 0, 0, 0, 0, 0, 0, 0, 0, 0, 0, 0, 0, 0, 0, 0, 0, 0, 0, 0, 0, 0, 0, 0, 0, 0, 0, 0, 0, 0, 0, 0, 0, 0, 0, 0, 0, 0, 0, 0, 0, 0, 0, 0, 0, 0, 0, 0, 0, 0, 0]"
  by (simp add: numeral_eq_Suc)

lemma list_update_Cons_numeral: "(x # xs)[numeral n := y] = x # xs[pred_numeral n := y]"
  by (simp add: numeral_eq_Suc)

lemma length_Sha1_load: "length (Sha1_load msg chunk w) = length w"
proof -
  have "length (fold (Sha1_load_step msg chunk) ns w) = length w" for ns
    by (induction ns arbitrary: w) (simp_all add: Sha1_load_step_def Let_def)
  then show ?thesis by (simp add: Sha1_load_def)
qed

lemma fold_Sha1_round_segment:
  "a + n \<le> length w \<Longrightarrow> fold (Sha1_round w) [a..<a + n] r
     = fold (\<lambda>(i, x). Sha1_step i x) (zip [a..<a + n] (take n (drop a w))) r"
proof -
  assume b: "a + n \<le> length w"
  then have l: "length (take n (drop a w)) = n" by simp
  have "zip [a..<a + n] (take n (drop a w)) = map (\<lambda>i. (i, w ! i)) [a..<a + n]"
  proof (rule nth_equalityI)
    show "length (zip [a..<a + n] (take n (drop a w))) = length (map (\<lambda>i. (i, w ! i)) [a..<a + n])"
      using l by simp
  next
    fix i
    assume "i < length (zip [a..<a + n] (take n (drop a w)))"
    then have "i < n" using l by simp
    then show "zip [a..<a + n] (take n (drop a w)) ! i = map (\<lambda>i. (i, w ! i)) [a..<a + n] ! i"
      using b l by simp
  qed
  moreover have "Sha1_round w = (\<lambda>i. (\<lambda>(i, x). Sha1_step i x) (i, w ! i))"
    by (simp add: Sha1_round_def fun_eq_iff)
  ultimately show ?thesis
    by (simp add: fold_map comp_def)
qed

lemma fold_Sha1_round_80:
  assumes "length w = 80"
  shows "fold (Sha1_round w) [0..<80] r =
    fold (\<lambda>(i, x). Sha1_step i x) (zip [60..<80] (take 20 (drop 60 w)))
     (fold (\<lambda>(i, x). Sha1_step i x) (zip [40..<60] (take 20 (drop 40 w)))
       (fold (\<lambda>(i, x). Sha1_step i x) (zip [20..<40] (take 20 (drop 20 w)))
         (fold (\<lambda>(i, x). Sha1_step i x) (zip [0..<20] (take 20 (drop 0 w))) r)))"
proof -
  have e: "(0::nat) + 20 = 20" "(20::nat) + 20 = 40" "(40::nat) + 20 = 60" "(60::nat) + 20 = 80"
    by simp_all
  have split: "[0..<80] = [0..<20] @ [20..<40] @ [40..<60] @ [60..<80]"
    using upt_add_eq_append[of 0 20 20] upt_add_eq_append[of 0 40 20] upt_add_eq_append[of 0 60 20]
    by simp
  have s: "fold (Sha1_round w) [a..<a + 20] r' = fold (\<lambda>(i, x). Sha1_step i x) (zip [a..<a + 20] (take 20 (drop a w))) r'"
    if "a + 20 \<le> 80" for a r'
    using that assms by (intro fold_Sha1_round_segment) simp
  show ?thesis
    unfolding split fold_append comp_apply
    using s[of 0] s[of 20] s[of 40] s[of 60] unfolding e by simp
qed

lemma length_rfc_msg: "length rfc_msg = 128"
  by (simp add: rfc_msg_def)

lemma length_rfc_w1: "length rfc_w1 = 80"
  by (simp add: rfc_w1_def)

lemma length_rfc_w2: "length rfc_w2 = 80"
  by (simp add: rfc_w2_def)

lemma rfc_message: "Sha1_message (rfc_key @ kGuid) = rfc_msg"
  by (simp add: Sha1_message_def rfc_key_def kGuid_def rfc_msg_def Sha1_pad_step Sha1_pad_done)

lemma rfc_schedule1: "Sha1_expand (Sha1_load rfc_msg 0 (replicate 80 0)) = rfc_w1"
  by (subst Sha1_expand_eval)
    (simp_all add: length_Sha1_load Sha1_load_def Sha1_load_step_def rfc_msg_def rfc_w1_def replicate_80
      upt_rec list_update_Cons_numeral Sha1_sched_rev_numeral leftRotate_def)

lemma rfc_schedule2: "Sha1_expand (Sha1_load rfc_msg 64 rfc_w1) = rfc_w2"
  by (subst Sha1_expand_eval)
    (simp_all add: length_Sha1_load length_rfc_w1 Sha1_load_def Sha1_load_step_def rfc_msg_def rfc_w1_def
      rfc_w2_def upt_rec list_update_Cons_numeral Sha1_sched_rev_numeral leftRotate_def)

lemma rfc_rounds1_1:
  "fold (\<lambda>(i, x). Sha1_step i x) (zip [0..<20] (take 20 (drop 0 rfc_w1))) (0x67452301, 0xefcdab89, 0x98badcfe, 0x10325476, 0xc3d2e1f0)
     = (0x91ab97c, 0x8dc510b6, 0xdfaeca5a, 0x75f6bd5d, 0x2801311a)"
  by (simp add: rfc_w1_def upt_rec Sha1_step_def leftRotate_def)

lemma rfc_rounds1_2:
  "fold (\<lambda>(i, x). Sha1_step i x) (zip [20..<40] (take 20 (drop 20 rfc_w1))) (0x91ab97c, 0x8dc510b6, 0xdfaeca5a, 0x75f6bd5d, 0x2801311a)
     = (0x2ba2c83e, 0xd0869081, 0x1a1d8209, 0xd3334889, 0x2779e4f2)"
  by (simp add: rfc_w1_def upt_rec Sha1_step_def leftRotate_def)

lemma rfc_rounds1_3:
  "fold (\<lambda>(i, x). Sha1_step i x) (zip [40..<60] (take 20 (drop 40 rfc_w1))) (0x2ba2c83e, 0xd0869081, 0x1a1d8209, 0xd3334889, 0x2779e4f2)
     = (0x4872d85a, 0xd284f163, 0x83091f0b, 0x1bbdbfbd, 0x9f8490bc)"
  by (simp add: rfc_w1_def upt_rec Sha1_step_def leftRotate_def)

lemma rfc_rounds1_4:
  "fold (\<lambda>(i, x). Sha1_step i x) (zip [60..<80] (take 20 (drop 60 rfc_w1))) (0x4872d85a, 0xd284f163, 0x83091f0b, 0x1bbdbfbd, 0x9f8490bc)
     = (0xf48a5426, 0x835995e1, 0x25c11efb, 0x4a45c402, 0x9a73c2f2)"
  by (simp add: rfc_w1_def upt_rec Sha1_step_def leftRotate_def)

lemma rfc_rounds1:
  "fold (Sha1_round rfc_w1) [0..<80] (0x67452301, 0xefcdab89, 0x98badcfe, 0x10325476, 0xc3d2e1f0)
     = (0xf48a5426, 0x835995e1, 0x25c11efb, 0x4a45c402, 0x9a73c2f2)"
  by (simp only: fold_Sha1_round_80[OF length_rfc_w1] rfc_rounds1_1 rfc_rounds1_2 rfc_rounds1_3 rfc_rounds1_4)

lemma rfc_rounds2_1:
  "fold (\<lambda>(i, x). Sha1_step i x) (zip [0..<20] (take 20 (drop 0 rfc_w2))) (0x5bcf7727, 0x7327416a, 0xbe7bfbf9, 0x5a781878, 0x5e46a4e2)
     = (0x2a008b51, 0x2f193a09, 0x9c8663c1, 0x8eb5d103, 0x261b7c9a)"
  by (simp add: rfc_w2_def upt_rec Sha1_step_def leftRotate_def)

lemma rfc_rounds2_2:
  "fold (\<lambda>(i, x). Sha1_step i x) (zip [20..<40] (take 20 (drop 20 rfc_w2))) (0x2a008b51, 0x2f193a09, 0x9c8663c1, 0x8eb5d103, 0x261b7c9a)
     = (0x6f698f1a, 0xc6ff0cd3, 0xde5ab7bc, 0x5f6f3cbb, 0x1da48a85)"
  by (simp add: rfc_w2_def upt_rec Sha1_step_def leftRotate_def)

lemma rfc_rounds2_3:
  "fold (\<lambda>(i, x). Sha1_step i x) (zip [40..<60] (take 20 (drop 40 rfc_w2))) (0x6f698f1a, 0xc6ff0cd3, 0xde5ab7bc, 0x5f6f3cbb, 0x1da48a85)
     = (0x56119f19, 0x85eb2fe, 0x484a25c5, 0xc140cfe8, 0x686da050)"
  by (simp add: rfc_w2_def upt_rec Sha1_step_def leftRotate_def)

lemma rfc_rounds2_4:
  "fold (\<lambda>(i, x). Sha1_step i x) (zip [60..<80] (take 20 (drop 60 rfc_w2))) (0x56119f19, 0x85eb2fe, 0x484a25c5, 0xc140cfe8, 0x686da050)
     = (0x57aad805, 0x4d3b0dac, 0xd27a4a0d, 0x74c040cd, 0x54782008)"
  by (simp add: rfc_w2_def upt_rec Sha1_step_def leftRotate_def)

lemma rfc_rounds2:
  "fold (Sha1_round rfc_w2) [0..<80] (0x5bcf7727, 0x7327416a, 0xbe7bfbf9, 0x5a781878, 0x5e46a4e2)
     = (0x57aad805, 0x4d3b0dac, 0xd27a4a0d, 0x74c040cd, 0x54782008)"
  by (simp only: fold_Sha1_round_80[OF length_rfc_w2] rfc_rounds2_1 rfc_rounds2_2 rfc_rounds2_3 rfc_rounds2_4)

lemma rfc_chunk1:
  "Sha1_chunk rfc_msg 0 (replicate 80 0, (0x67452301, 0xefcdab89, 0x98badcfe, 0x10325476, 0xc3d2e1f0))
     = (rfc_w1, (0x5bcf7727, 0x7327416a, 0xbe7bfbf9, 0x5a781878, 0x5e46a4e2))"
  by (simp add: Sha1_chunk_def Let_def rfc_schedule1 rfc_rounds1)

lemma rfc_chunk2:
  "Sha1_chunk rfc_msg 64 (rfc_w1, (0x5bcf7727, 0x7327416a, 0xbe7bfbf9, 0x5a781878, 0x5e46a4e2))
     = (rfc_w2, (0xb37a4f2c, 0xc0624f16, 0x90f64606, 0xcf385945, 0xb2bec4ea))"
  by (simp add: Sha1_chunk_def Let_def rfc_schedule2 rfc_rounds2)

lemma rfc_digest:
  "Sha1 (rfc_key @ kGuid) = [0xb3, 0x7a, 0x4f, 0x2c, 0xc0, 0x62, 0x4f, 0x16, 0x90, 0xf6, 0x46, 0x6, 0xcf, 0x38, 0x59, 0x45, 0xb2, 0xbe, 0xc4, 0xea]"
  by (simp add: Sha1_def rfc_message Sha1_chunks_step Sha1_chunks_done length_rfc_msg rfc_chunk1 rfc_chunk2
      storeBE32_def)

lemma Base64Encode_from_step:
  "i < length data \<Longrightarrow> Base64Encode_from data i out =
     (let octetA = (ucast (data ! i)) :: u32;
          octetB = (if i + 1 < length data then ucast (data ! (i + 1)) else 0) :: u32;
          octetC = (if i + 2 < length data then ucast (data ! (i + 2)) else 0) :: u32;
          triple = (push_bit 16 octetA) OR (push_bit 8 octetB) OR octetC
      in Base64Encode_from data (i + 3)
           (out @ [kChars ! unat ((drop_bit 18 triple) AND 0x3f),
                   kChars ! unat ((drop_bit 12 triple) AND 0x3f),
                   (if i + 1 < length data then kChars ! unat ((drop_bit 6 triple) AND 0x3f) else CHR ''=''),
                   (if i + 2 < length data then kChars ! unat (triple AND 0x3f) else CHR ''='')]))"
  by (subst Base64Encode_from.simps) simp

lemma rfc_base64:
  "Base64Encode [0xb3, 0x7a, 0x4f, 0x2c, 0xc0, 0x62, 0x4f, 0x16, 0x90, 0xf6, 0x46, 0x6, 0xcf, 0x38, 0x59, 0x45, 0xb2, 0xbe, 0xc4, 0xea] = ''s3pPLMBiTxaQ9kYGzzhZRbK+xOo=''"
  by (simp add: Base64Encode_def Base64Encode_from_step Base64Encode_from_done kChars_def Let_def)


subsection \<open>The server's SHA-1 and Base64 against the reference definitions\<close>

lemma unat_ucast_byte: "unat (ucast (e::byte) :: 'a::len word) = unat e" if "8 \<le> LENGTH('a)"
proof -
  have "unat e < 2 ^ 8" using unsigned_less[of e, where 'a = nat] by simp
  also have "(2::nat) ^ 8 \<le> 2 ^ LENGTH('a)" using that by (intro power_increasing) simp_all
  finally show ?thesis by (simp add: unsigned_ucast_eq take_bit_nat_eq_self_iff)
qed

lemma be_step32:
  assumes "unat (w::u32) < 2 ^ 24"
  shows "unat (push_bit 8 w OR ucast (e::byte)) = 256 * unat w + unat e"
proof -
  have d: "push_bit 8 w OR ucast e = push_bit 8 w + ucast e"
    by (rule disjunctive_add[symmetric]) (auto simp add: bit_simps dest: bit_imp_le_length)
  have e: "unat e < 256" using unsigned_less[of e, where 'a = nat] by simp
  have ue: "unat (ucast e :: u32) = unat e" by (simp add: unat_ucast_byte)
  have "unat (w * 256) = unat w * unat (256 :: u32)"
    using assms by (subst unat_mult_lem[THEN iffD1]) simp_all
  then have p: "unat (push_bit 8 w) = 256 * unat w"
    by (simp add: push_bit_eq_mult)
  have "unat (push_bit 8 w + ucast e) = unat (push_bit 8 w) + unat (ucast e :: u32)"
    using assms e by (subst unat_add_lem[THEN iffD1]) (simp_all add: p ue)
  with d p ue show ?thesis by simp
qed

lemma unat_be3:
  "unat (push_bit 16 (ucast (a::byte)) OR push_bit 8 (ucast (b::byte)) OR ucast (c::byte) :: u32)
   = be_nat [a, b, c]"
proof -
  have n: "push_bit 16 (ucast a) OR push_bit 8 (ucast b) OR ucast c
           = (push_bit 8 (push_bit 8 (ucast a) OR ucast b) OR ucast c :: u32)"
    by (simp add: push_bit_or or.assoc)
  have a: "unat a < 256" using unsigned_less[of a, where 'a = nat] by simp
  have b: "unat b < 256" using unsigned_less[of b, where 'a = nat] by simp
  have 1: "unat (ucast a :: u32) = unat a" by (simp add: unat_ucast_byte)
  have 2: "unat (push_bit 8 (ucast a) OR ucast b :: u32) = 256 * unat a + unat b"
    using a by (subst be_step32) (simp_all add: 1)
  have 3: "unat (push_bit 8 (push_bit 8 (ucast a) OR ucast b) OR ucast c :: u32)
           = 256 * (256 * unat a + unat b) + unat c"
    using a b by (subst be_step32) (simp_all add: 2)
  show ?thesis unfolding n 3 by (simp add: be_nat_def)
qed

lemma unat_be4:
  "unat (push_bit 24 (ucast (a::byte)) OR push_bit 16 (ucast (b::byte)) OR push_bit 8 (ucast (c::byte))
           OR ucast (d::byte) :: u32)
   = be_nat [a, b, c, d]"
proof -
  have n: "push_bit 24 (ucast a) OR push_bit 16 (ucast b) OR push_bit 8 (ucast c) OR ucast d
           = (push_bit 8 (push_bit 16 (ucast a) OR push_bit 8 (ucast b) OR ucast c) OR ucast d :: u32)"
    by (simp add: push_bit_or or.assoc)
  have a: "unat a < 256" using unsigned_less[of a, where 'a = nat] by simp
  have b: "unat b < 256" using unsigned_less[of b, where 'a = nat] by simp
  have c: "unat c < 256" using unsigned_less[of c, where 'a = nat] by simp
  have 3: "unat (push_bit 16 (ucast a) OR push_bit 8 (ucast b) OR ucast c :: u32)
           = 256 * (256 * unat a + unat b) + unat c"
    by (simp add: unat_be3 be_nat_def)
  have "unat (push_bit 8 (push_bit 16 (ucast a) OR push_bit 8 (ucast b) OR ucast c) OR ucast d :: u32)
        = 256 * (256 * (256 * unat a + unat b) + unat c) + unat d"
    using a b c by (subst be_step32) (simp_all add: 3)
  then show ?thesis unfolding n by (simp add: be_nat_def)
qed

lemma byte_of_drop_bit:
  "(ucast ((drop_bit k (v::'a::len word)) AND 0xff) :: byte) = of_nat (unat v div 2 ^ k)"
proof -
  have "(ucast ((drop_bit k v) AND mask 8) :: byte) = of_nat (drop_bit k (unat v))"
    by (rule bit_eqI) (auto simp add: bit_simps bit_of_nat_iff dest: bit_imp_le_length)
  then show ?thesis by (simp add: ff_mask drop_bit_eq_div)
qed

lemma storeBE32_reference: "storeBE32 v = be_bytes 4 (unat v)"
proof -
  have u: "[0..<4] = [0, 1, 2, 3::nat]" by (simp add: upt_rec)
  have "(ucast (v AND 0xff) :: byte) = of_nat (unat v div 2 ^ 0)"
    using byte_of_drop_bit[of 0 v] by simp
  then show ?thesis
    by (simp add: storeBE32_def be_bytes_def u byte_of_drop_bit)
qed

lemma byte_of_drop_bit_of_nat:
  assumes "k + 8 \<le> 64"
  shows "(ucast ((drop_bit k (of_nat m :: u64)) AND 0xff) :: byte) = of_nat (m div 2 ^ k)"
proof -
  have "(ucast ((drop_bit k (of_nat m :: u64)) AND mask 8) :: byte) = of_nat (drop_bit k m)"
    using assms by (intro bit_eqI) (auto simp add: bit_simps bit_of_nat_iff)
  then show ?thesis by (simp add: ff_mask drop_bit_eq_div)
qed

lemma length_bytes_reference:
  "map (\<lambda>i. ucast ((drop_bit (i * 8) (of_nat m :: u64)) AND 0xff) :: byte) [7, 6, 5, 4, 3, 2, 1, 0]
   = be_bytes 8 m"
proof -
  have u: "[0..<8] = [0, 1, 2, 3, 4, 5, 6, 7::nat]" by (simp add: upt_rec)
  have "(ucast ((of_nat m :: u64) AND 0xff) :: byte) = of_nat (m div 2 ^ 0)"
    using byte_of_drop_bit_of_nat[of 0 m] by simp
  then show ?thesis
    by (simp add: be_bytes_def u byte_of_drop_bit_of_nat)
qed


lemma Sha1_pad_closed: "Sha1_pad msg = msg @ replicate (nat ((56 - int (length msg)) mod 64)) 0"
proof (induction msg rule: Sha1_pad.induct)
  case (1 msg)
  show ?case
  proof (cases "length msg mod 64 = 56")
    case True
    then have "int (length msg mod 64) = 56" by simp
    then have "int (length msg) mod 64 = 56" by (simp add: zmod_int)
    then have "(56 - int (length msg)) mod 64 = (56 - 56) mod 64"
      by (metis mod_diff_right_eq)
    with True show ?thesis by (simp add: Sha1_pad_done)
  next
    case False
    from Sha1_pad_measure[OF False]
    have "nat ((56 - int (length msg)) mod 64) = Suc (nat ((56 - int (length (msg @ [0::byte]))) mod 64))"
    proof -
      let ?a = "56 - int (length msg)"
      have nz: "?a mod 64 \<noteq> 0" using Sha1_pad_measure[OF False] by simp
      have pos: "0 \<le> ?a mod 64" "?a mod 64 < 64" by simp_all
      have "(?a - 1) mod 64 = (?a mod 64 - 1) mod 64" by (simp add: mod_diff_left_eq)
      also have "\<dots> = ?a mod 64 - 1" using nz pos by (simp add: mod_pos_pos_trivial)
      finally have "(56 - int (length (msg @ [0::byte]))) mod 64 = ?a mod 64 - 1"
        by (simp add: algebra_simps)
      then show ?thesis using nz pos by simp
    qed
    with False 1 show ?thesis
      by (simp add: Sha1_pad_step replicate_app_Cons_same)
  qed
qed

lemma length_be_bytes: "length (be_bytes k n) = k"
  by (simp add: be_bytes_def)

lemma Sha1_message_reference: "Sha1_message input = SHA1_padded (map of_char input)"
proof -
  have bl: "(of_nat (length input) :: u64) * 8 = of_nat (8 * length input)"
    by simp
  have pz: "(56 - int (length (map of_char input @ [0x80::byte]))) mod 64
                 = (55 - int (length (map (of_char :: char \<Rightarrow> byte) input))) mod 64"
    by (simp add: algebra_simps)
  show ?thesis
    unfolding Sha1_message_def SHA1_padded_def Let_def Sha1_pad_closed bl length_bytes_reference pz
    by simp
qed

lemma length_SHA1_padded: "length (SHA1_padded M) mod 64 = 0"
proof -
  have "(int (length M) + 9 + (55 - int (length M)) mod 64) mod 64 = 0"
  proof -
    have "(int (length M) + 9 + (55 - int (length M)) mod 64) mod 64
          = (int (length M) + 9 + (55 - int (length M))) mod 64"
      by (rule mod_add_right_eq)
    then show ?thesis by simp
  qed
  moreover have "int (length (SHA1_padded M)) = int (length M) + 9 + (55 - int (length M)) mod 64"
    by (simp add: SHA1_padded_def length_be_bytes)
  ultimately have "int (length (SHA1_padded M)) mod 64 = 0" by simp
  then have "int (length (SHA1_padded M) mod 64) = 0" by (simp add: zmod_int)
  then show ?thesis by simp
qed


lemma leftRotate_word_rotl:
  assumes "0 < n" and "n < 32"
  shows "leftRotate v n = word_rotl n v"
proof (rule bit_eqI)
  fix k
  assume "possible_bit TYPE(u32) k"
  then have k: "k < 32" by (simp add: possible_bit_def)
  show "bit (leftRotate v n) k \<longleftrightarrow> bit (word_rotl n v) k"
  proof (cases "n \<le> k")
    case True
    with k assms have "(k + (32 - n mod 32)) mod 32 = k - n"
      by (simp add: mod_if)
    moreover from True k assms have "\<not> bit v (32 - n + k)"
      by (auto dest: bit_imp_le_length)
    ultimately show ?thesis
      using True k assms
      by (simp add: leftRotate_def bit_or_iff bit_push_bit_iff bit_drop_bit_eq bit_word_rotl_iff)
  next
    case False
    with k assms have "(k + (32 - n mod 32)) mod 32 = 32 - n + k"
      by simp
    then show ?thesis
      using False k assms
      by (simp add: leftRotate_def bit_or_iff bit_push_bit_iff bit_drop_bit_eq bit_word_rotl_iff)
  qed
qed

lemma SHA1_Ch_or: "(b AND c) OR ((NOT b) AND d) = SHA1_Ch b c d"
  unfolding SHA1_Ch_def by (rule bit_eqI) (auto simp add: bit_simps)

lemma SHA1_Maj_or: "(b AND c) OR (b AND d) OR (c AND d) = SHA1_Maj b c d"
  unfolding SHA1_Maj_def by (rule bit_eqI) (auto simp add: bit_simps)

lemma Sha1_step_reference: "Sha1_step t (SHA1_W blk t) v = SHA1_round blk t v"
proof -
  obtain a b c d e where v: "v = (a, b, c, d, e)" by (cases v)
  have r: "leftRotate a 5 = word_rotl 5 a" "leftRotate b 30 = word_rotl 30 b"
    by (simp_all add: leftRotate_word_rotl)
  show ?thesis
    unfolding v Sha1_step_def SHA1_round_def
    by (simp add: r SHA1_f_def SHA1_K_def SHA1_Ch_or SHA1_Maj_or SHA1_Parity_def Let_def)
qed

lemma take4_drop:
  assumes "k + 4 \<le> length xs"
  shows "take 4 (drop k xs) = [xs ! k, xs ! (k + 1), xs ! (k + 2), xs ! (k + 3)]"
proof (rule nth_equalityI)
  show "length (take 4 (drop k xs)) = length [xs ! k, xs ! (k + 1), xs ! (k + 2), xs ! (k + 3)]"
    using assms by simp
  fix i assume "i < length (take 4 (drop k xs))"
  then have "i < 4" by simp
  then consider "i = 0" | "i = 1" | "i = 2" | "i = 3" by linarith
  then show "take 4 (drop k xs) ! i = [xs ! k, xs ! (k + 1), xs ! (k + 2), xs ! (k + 3)] ! i"
    using assms by cases simp_all
qed

lemma SHA1_W_low:
  assumes "t < 16" and "chunk + 64 \<le> length msg"
  shows "SHA1_W (take 64 (drop chunk msg)) t
         = (push_bit 24 (ucast (msg ! (chunk + t * 4)))) OR (push_bit 16 (ucast (msg ! (chunk + t * 4 + 1)))) OR
           (push_bit 8 (ucast (msg ! (chunk + t * 4 + 2)))) OR (ucast (msg ! (chunk + t * 4 + 3)))"
proof -
  let ?blk = "take 64 (drop chunk msg)"
  have l: "length ?blk = 64" using assms(2) by simp
  have n: "?blk ! j = msg ! (chunk + j)" if "j < 64" for j
    using that assms(2) by simp
  have "take 4 (drop (4 * t) ?blk) = [?blk ! (4 * t), ?blk ! (4 * t + 1), ?blk ! (4 * t + 2), ?blk ! (4 * t + 3)]"
    using assms(1) l by (intro take4_drop) simp
  also have "\<dots> = [msg ! (chunk + t * 4), msg ! (chunk + t * 4 + 1), msg ! (chunk + t * 4 + 2),
                    msg ! (chunk + t * 4 + 3)]"
    using assms(1) n[of "4 * t"] n[of "4 * t + 1"] n[of "4 * t + 2"] n[of "4 * t + 3"]
    by (simp only: list.inject) (simp add: mult.commute add.assoc)
  finally have "SHA1_W ?blk t = of_nat (be_nat [msg ! (chunk + t * 4), msg ! (chunk + t * 4 + 1),
                    msg ! (chunk + t * 4 + 2), msg ! (chunk + t * 4 + 3)])"
    using assms(1) by (subst SHA1_W.simps) simp
  then show ?thesis by (simp flip: unat_be4)
qed

lemma Sha1_load_reference:
  assumes "length w = 80" and "chunk + 64 \<le> length msg" and "n \<le> 16"
  shows "length (fold (Sha1_load_step msg chunk) [0..<n] w) = 80
         \<and> (\<forall>i<n. fold (Sha1_load_step msg chunk) [0..<n] w ! i = SHA1_W (take 64 (drop chunk msg)) i)"
  using assms(3)
proof (induction n)
  case 0
  then show ?case using assms(1) by simp
next
  case (Suc n)
  let ?w = "fold (Sha1_load_step msg chunk) [0..<n] w"
  from Suc have ih: "length ?w = 80" "\<forall>i<n. ?w ! i = SHA1_W (take 64 (drop chunk msg)) i"
    by simp_all
  have n: "n < 16" using Suc.prems by simp
  have s: "fold (Sha1_load_step msg chunk) [0..<Suc n] w = ?w[n := SHA1_W (take 64 (drop chunk msg)) n]"
    by (simp add: Sha1_load_step_def Let_def SHA1_W_low[OF n assms(2)] add.assoc)
  show ?case
    unfolding s using ih n by (auto simp add: nth_list_update less_Suc_eq)
qed

lemma Sha1_expand_reference:
  assumes "length w = 80" and "\<forall>i<16. w ! i = SHA1_W blk i" and "16 \<le> n" and "n \<le> 80"
  shows "length (fold Sha1_expand_step [16..<n] w) = 80
         \<and> (\<forall>i<n. fold Sha1_expand_step [16..<n] w ! i = SHA1_W blk i)"
  using assms(3,4)
proof (induction n rule: dec_induct)
  case base
  then show ?case using assms(1,2) by simp
next
  case (step n)
  let ?w = "fold Sha1_expand_step [16..<n] w"
  from step have ih: "length ?w = 80" "\<forall>i<n. ?w ! i = SHA1_W blk i"
    by simp_all
  have n: "16 \<le> n" "n < 80" using step by simp_all
  have W: "SHA1_W blk n = word_rotl 1 (SHA1_W blk (n - 3) XOR SHA1_W blk (n - 8) XOR SHA1_W blk (n - 14)
                          XOR SHA1_W blk (n - 16))"
    using n by (subst SHA1_W.simps) simp
  have "Sha1_expand_step n ?w = ?w[n := SHA1_W blk n]"
    using n ih(2) by (simp add: Sha1_expand_step_def W leftRotate_word_rotl)
  moreover have "[16..<Suc n] = [16..<n] @ [n]" using n by simp
  ultimately have s: "fold Sha1_expand_step [16..<Suc n] w = ?w[n := SHA1_W blk n]"
    by simp
  show ?case
    unfolding s using ih n by (auto simp add: nth_list_update less_Suc_eq)
qed

lemma Sha1_chunk_reference:
  assumes "length w = 80" and "chunk + 64 \<le> length msg"
  shows "\<exists>w'. length w' = 80
            \<and> Sha1_chunk msg chunk (w, H) = (w', SHA1_compress (take 64 (drop chunk msg)) H)"
proof -
  let ?blk = "take 64 (drop chunk msg)"
  let ?w1 = "Sha1_load msg chunk w"
  let ?w2 = "Sha1_expand ?w1"
  from Sha1_load_reference[OF assms, of 16]
  have w1: "length ?w1 = 80" "\<forall>i<16. ?w1 ! i = SHA1_W ?blk i"
    by (simp_all add: Sha1_load_def)
  from Sha1_expand_reference[OF w1, of 80]
  have w2: "length ?w2 = 80" "\<forall>i<80. ?w2 ! i = SHA1_W ?blk i"
    by (simp_all add: Sha1_expand_def)
  have "Sha1_round ?w2 x = SHA1_round ?blk x" if "x < 80" for x
    using that w2(2) by (intro ext) (simp add: Sha1_round_def Sha1_step_reference)
  then have "fold (Sha1_round ?w2) [0..<80] H = fold (SHA1_round ?blk) [0..<80] H"
    by (intro fold_cong) simp_all
  then have "Sha1_chunk msg chunk (w, H) = (?w2, SHA1_compress ?blk H)"
    by (cases H) (simp add: Sha1_chunk_def SHA1_compress_def Let_def add.commute split: prod.splits)
  with w2(1) show ?thesis by blast
qed

lemma Sha1_chunks_reference:
  assumes "length msg = 64 * N" and "k \<le> N" and "length w = 80"
  shows "\<exists>w'. Sha1_chunks msg (64 * k) (w, H)
              = (w', fold SHA1_compress (map (\<lambda>i. take 64 (drop (64 * i) msg)) [k..<N]) H)"
  using assms(2,3)
proof (induction "N - k" arbitrary: k w H)
  case 0
  then have "k = N" by simp
  then show ?case using assms(1) by (simp add: Sha1_chunks_done)
next
  case (Suc d)
  then have k: "k < N" by simp
  then have c: "64 * k + 64 \<le> length msg" "64 * k < length msg" using assms(1) by simp_all
  from Sha1_chunk_reference[OF Suc.prems(2) c(1), of H] obtain w' where
    w': "length w' = 80"
    "Sha1_chunk msg (64 * k) (w, H) = (w', SHA1_compress (take 64 (drop (64 * k) msg)) H)"
    by blast
  have d: "d = N - Suc k" using Suc.hyps(2) by simp
  from Suc.hyps(1)[OF d _ w'(1), of "SHA1_compress (take 64 (drop (64 * k) msg)) H"] k
  obtain w'' where
    "Sha1_chunks msg (64 * Suc k) (w', SHA1_compress (take 64 (drop (64 * k) msg)) H)
     = (w'', fold SHA1_compress (map (\<lambda>i. take 64 (drop (64 * i) msg)) [Suc k..<N])
               (SHA1_compress (take 64 (drop (64 * k) msg)) H))"
    by auto
  moreover have "[k..<N] = k # [Suc k..<N]" using k by (simp add: upt_rec)
  ultimately show ?case
    using c(2) w'(2) by (simp add: Sha1_chunks_step add.commute)
qed

lemma Sha1_reference: "Sha1 input = SHA1_reference (map of_char input)"
proof -
  let ?msg = "SHA1_padded (map of_char input)"
  have m: "Sha1_message input = ?msg" by (rule Sha1_message_reference)
  have "64 dvd length ?msg"
    using length_SHA1_padded[of "map of_char input"] by (simp add: mod_eq_0_iff_dvd)
  then have l: "length ?msg = 64 * (length ?msg div 64)"
    by simp
  from Sha1_chunks_reference[OF l, of 0 "replicate 80 0" SHA1_H0]
  obtain w' where "Sha1_chunks ?msg 0 (replicate 80 0, SHA1_H0)
              = (w', fold SHA1_compress (SHA1_blocks ?msg) SHA1_H0)"
    by (auto simp add: SHA1_blocks_def)
  then show ?thesis
    unfolding Sha1_def m SHA1_reference_def
    by (simp add: SHA1_H0_def storeBE32_reference split: prod.splits)
qed


lemma kChars_alphabet: "kChars = Base64_alphabet"
  by (simp add: kChars_def Base64_alphabet_def)

lemma unat_sextet: "unat ((drop_bit k (w::u32)) AND 0x3f) = unat w div 2 ^ k mod 64"
proof -
  have m: "(0x3f :: u32) = mask 6" by (simp add: mask_eq_exp_minus_1)
  have "unat (take_bit 6 (drop_bit k w)) = take_bit 6 (drop_bit k (unat w))"
    by (simp only: unsigned_take_bit_eq unat_drop_bit_eq)
  then show ?thesis
    unfolding m by (simp only: take_bit_eq_mask[symmetric]) (simp add: take_bit_eq_mod drop_bit_eq_div)
qed

lemma be_nat3_less: "be_nat [a, b, c] < 16777216"
proof -
  have "unat a < 256" "unat b < 256" "unat c < 256"
    using unsigned_less[of a, where 'a = nat] unsigned_less[of b, where 'a = nat]
      unsigned_less[of c, where 'a = nat] by simp_all
  then show ?thesis by (simp add: be_nat_def)
qed

lemma Base64_quantum:
  fixes a b c :: byte
  defines "triple \<equiv> (push_bit 16 (ucast a) OR push_bit 8 (ucast b) OR ucast c :: u32)"
  shows "unat ((drop_bit 18 triple) AND 0x3f) = be_nat [a, b, c] div 262144"
    and "unat ((drop_bit 12 triple) AND 0x3f) = be_nat [a, b, c] div 4096 mod 64"
    and "unat ((drop_bit 6 triple) AND 0x3f) = be_nat [a, b, c] div 64 mod 64"
    and "unat (triple AND 0x3f) = be_nat [a, b, c] mod 64"
proof -
  have u: "unat triple = be_nat [a, b, c]" unfolding triple_def by (rule unat_be3)
  have "be_nat [a, b, c] div 262144 < 64" using be_nat3_less[of a b c] by simp
  then show "unat ((drop_bit 18 triple) AND 0x3f) = be_nat [a, b, c] div 262144"
    by (simp add: unat_sextet u)
  show "unat ((drop_bit 12 triple) AND 0x3f) = be_nat [a, b, c] div 4096 mod 64"
    by (simp add: unat_sextet u)
  show "unat ((drop_bit 6 triple) AND 0x3f) = be_nat [a, b, c] div 64 mod 64"
    by (simp add: unat_sextet u)
  show "unat (triple AND 0x3f) = be_nat [a, b, c] mod 64"
    using unat_sextet[of 0 triple] by (simp add: u)
qed

lemma Base64Encode_from_reference:
  "drop i data = xs \<Longrightarrow> Base64Encode_from data i out = out @ Base64_reference xs"
proof (induction xs arbitrary: i out rule: Base64_reference.induct)
  case 1
  then have "\<not> i < length data" by simp
  then show ?case by (simp add: Base64Encode_from_done)
next
  case (2 a)
  then have "length (drop i data) = 1" by simp
  then have l: "length data = i + 1" by simp
  from 2 have a: "data ! i = a" by (rule nth_via_drop)
  note q = Base64_quantum[of a 0 0, simplified]
  show ?case
    using l a
    by (simp add: Base64Encode_from_step Let_def Base64Encode_from_done kChars_alphabet q)
next
  case (3 a b)
  then have "length (drop i data) = 2" by simp
  then have l: "length data = i + 2" by simp
  from 3 have a: "data ! i = a" by (rule nth_via_drop)
  from 3 have "drop (Suc i) data = [b]" by (simp add: drop_Suc flip: tl_drop)
  then have b: "data ! (i + 1) = b" by (simp add: nth_via_drop)
  note q = Base64_quantum[of a b 0, simplified]
  show ?case
    using l a b
    by (simp add: Base64Encode_from_step Let_def Base64Encode_from_done kChars_alphabet q)
next
  case (4 a b c rest)
  from 4(2) have "length (drop i data) = 3 + length rest" by simp
  then have l: "i + 3 \<le> length data" by simp
  from 4(2) have a: "data ! i = a" by (rule nth_via_drop)
  from 4(2) have d1: "drop (Suc i) data = b # c # rest" by (simp add: drop_Suc flip: tl_drop)
  then have b: "data ! (i + 1) = b" by (simp add: nth_via_drop)
  from d1 have d2: "drop (Suc (Suc i)) data = c # rest" by (simp add: drop_Suc flip: tl_drop)
  then have c: "data ! (i + 2) = c" by (simp add: nth_via_drop)
  from d2 have d3: "drop (i + 3) data = rest"
    by (simp add: drop_Suc numeral_3_eq_3 flip: tl_drop)
  have lt: "i < length data" "i + 1 < length data" "i + 2 < length data" using l by simp_all
  note q = Base64_quantum[of a b c, simplified]
  show ?case
    using lt a b c
    by (simp add: Base64Encode_from_step Let_def kChars_alphabet 4(1)[OF refl d3] q)
qed

lemma Base64Encode_reference: "Base64Encode data = Base64_reference data"
  by (simp add: Base64Encode_def Base64Encode_from_reference)


subsection \<open>The handshake\<close>

lemma getlines_Nil: "getlines [] = []"
  by (subst getlines.simps) simp

lemma getlines_line:
  assumes "CHR 0x0A \<notin> set l"
  shows "getlines (l @ CHR 0x0A # rest) = l # getlines rest"
proof -
  have n: "\<forall>x\<in>set l. x \<noteq> CHR 0x0A" using assms by auto
  have t: "takeWhile (\<lambda>c. c \<noteq> CHR 0x0A) (l @ CHR 0x0A # rest) = l"
    using n by (simp add: takeWhile_tail)
  have d: "dropWhile (\<lambda>c. c \<noteq> CHR 0x0A) (l @ CHR 0x0A # rest) = CHR 0x0A # rest"
    using n by (simp add: dropWhile_append3)
  show ?thesis
    by (subst getlines.simps) (simp add: t d)
qed

lemma Trim_id:
  assumes "K \<noteq> []" and "\<not> isspace (hd K)" and "\<not> isspace (last K)"
  shows "Trim (CHR '' '' # K) = K"
proof -
  have 1: "dropWhile isspace (CHR '' '' # K) = K"
    using assms(1,2) by (cases K) (simp_all add: isspace_def)
  have 2: "dropWhile isspace (rev K) = rev K"
    using assms(1,3) by (cases "rev K") (simp_all add: last_rev hd_rev[symmetric])
  show ?thesis unfolding Trim_def 1 2 by simp
qed

lemma HeaderLoop_request_line:
  "HeaderLoop ((''GET / HTTP/1.1'' @ [CHR 0x0D]) # ls) st = HeaderLoop ls st"
  by (simp add: find_colon_def)

lemma HeaderLoop_upgrade_line:
  "HeaderLoop ((''Upgrade: websocket'' @ [CHR 0x0D]) # ls) st = HeaderLoop ls (fst st, True)"
  by (simp add: find_colon_def Trim_def ToLower_def isspace_def tolower_def)

lemma HeaderLoop_key_line:
  assumes "K \<noteq> []" and "\<not> isspace (hd K)" and "\<not> isspace (last K)"
  shows "HeaderLoop ((''Sec-WebSocket-Key: '' @ K @ [CHR 0x0D]) # ls) st = HeaderLoop ls (K, snd st)"
proof -
  let ?line = "''Sec-WebSocket-Key: '' @ K"
  have strip: "(if ?line @ [CHR 0x0D] \<noteq> [] \<and> last (?line @ [CHR 0x0D]) = CHR 0x0D
                then butlast (?line @ [CHR 0x0D]) else ?line @ [CHR 0x0D]) = ?line"
    by (simp only: last_snoc butlast_snoc) simp
  have tw: "takeWhile (\<lambda>c. c \<noteq> CHR '':'') ?line = ''Sec-WebSocket-Key''"
    by simp
  have c: "find_colon ?line = Some 17"
    unfolding find_colon_def tw by simp
  have k: "ToLower (Trim (take 17 ?line)) = ''sec-websocket-key''"
    by (simp add: Trim_def ToLower_def isspace_def tolower_def)
  have v: "Trim (drop (17 + 1) ?line) = K"
    using Trim_id[OF assms] by simp
  have "HeaderLoop ((?line @ [CHR 0x0D]) # ls) st = HeaderLoop ls (K, snd st)"
    by (subst HeaderLoop.simps) (simp only: strip Let_def c k v option.case, simp)
  then show ?thesis by simp
qed

lemma HeaderLoop_empty_line: "HeaderLoop ([CHR 0x0D] # ls) st = st"
  by simp

lemma PerformServerHandshake_wire:
  assumes "K \<noteq> []" and "CHR 0x0A \<notin> set K" and "\<not> isspace (hd K)" and "\<not> isspace (last K)"
  shows "PerformServerHandshake
           (Some (''GET / HTTP/1.1'' @ CRLF @ ''Upgrade: websocket'' @ CRLF
                  @ ''Sec-WebSocket-Key: '' @ K @ CRLF @ CRLF @ following))
         = Some (''HTTP/1.1 101 Switching Protocols'' @ CRLF @ ''Upgrade: websocket'' @ CRLF
                 @ ''Connection: Upgrade'' @ CRLF
                 @ ''Sec-WebSocket-Accept: '' @ WebSocketAcceptKey K @ CRLF @ CRLF)"
proof -
  let ?l0 = "''GET / HTTP/1.1'' @ [CHR 0x0D]"
  let ?l1 = "''Upgrade: websocket'' @ [CHR 0x0D]"
  let ?l2 = "''Sec-WebSocket-Key: '' @ K @ [CHR 0x0D]"
  let ?l3 = "[CHR 0x0D]"
  have s: "''GET / HTTP/1.1'' @ CRLF @ ''Upgrade: websocket'' @ CRLF
                  @ ''Sec-WebSocket-Key: '' @ K @ CRLF @ CRLF @ following
           = ?l0 @ CHR 0x0A # (?l1 @ CHR 0x0A # (?l2 @ CHR 0x0A # (?l3 @ CHR 0x0A # following)))"
    by (simp add: CRLF_def)
  have g: "getlines (?l0 @ CHR 0x0A # (?l1 @ CHR 0x0A # (?l2 @ CHR 0x0A # (?l3 @ CHR 0x0A # following))))
           = ?l0 # ?l1 # ?l2 # ?l3 # getlines following"
  proof -
    have n0: "CHR 0x0A \<notin> set ?l0" by simp
    have n1: "CHR 0x0A \<notin> set ?l1" by simp
    have n2: "CHR 0x0A \<notin> set ?l2" using assms(2) by simp
    have n3: "CHR 0x0A \<notin> set ?l3" by simp
    show ?thesis
      by (simp only: getlines_line[OF n0] getlines_line[OF n1] getlines_line[OF n2] getlines_line[OF n3])
  qed
  have hl: "HeaderLoop (?l0 # ?l1 # ?l2 # ?l3 # getlines following) ([], False) = (K, True)"
    by (simp only: HeaderLoop_request_line HeaderLoop_upgrade_line HeaderLoop_key_line[OF assms(1,3,4)]
        HeaderLoop_empty_line fst_conv snd_conv)
  show ?thesis
    unfolding s g PerformServerHandshake_def option.case hl using assms(1) by simp
qed


lemma Base64_key_chars:
  assumes "set K \<subseteq> set (Base64_alphabet @ ''='')" and "c \<in> set K"
  shows "\<not> isspace c" and "c \<noteq> CHR 0x0A"
proof -
  have "\<forall>c\<in>set (Base64_alphabet @ ''='') . \<not> isspace c \<and> c \<noteq> CHR 0x0A"
    by (simp add: Base64_alphabet_def isspace_def)
  with assms show "\<not> isspace c" and "c \<noteq> CHR 0x0A" by blast+
qed

text \<open>
  C5. For every client key K, the accept value the server computes, \<^verbatim>\<open>WebSocketAcceptKey\<close> K,
  is the Base64 encoding (RFC 4648) of the SHA-1 digest (FIPS 180-4) of the bytes of K followed
  by \<^verbatim>\<open>258EAFA5-E914-47DA-95CA-C5AB0DC85B11\<close>. On the wire: an upgrade request whose
  \<^verbatim>\<open>Sec-WebSocket-Key\<close> header carries a non-empty key K of Base64 characters is answered with
  the 101 response whose \<^verbatim>\<open>Sec-WebSocket-Accept\<close> header carries that value; and whatever the
  request, a response is sent only if the header loop found an upgrade to websocket and a
  non-empty key, and then carries the value for the key it found. For the key
  \<^verbatim>\<open>dGhlIHNhbXBsZSBub25jZQ==\<close> the server computes \<^verbatim>\<open>s3pPLMBiTxaQ9kYGzzhZRbK+xOo=\<close>.
\<close>

theorem C5_accept_key:
  "WebSocketAcceptKey K
     = Base64_reference (SHA1_reference (map of_char (K @ ''258EAFA5-E914-47DA-95CA-C5AB0DC85B11'')))
   \<and> (K \<noteq> [] \<and> set K \<subseteq> set (Base64_alphabet @ ''='') \<longrightarrow>
        PerformServerHandshake
          (Some (''GET / HTTP/1.1'' @ CRLF @ ''Upgrade: websocket'' @ CRLF
                 @ ''Sec-WebSocket-Key: '' @ K @ CRLF @ CRLF @ following))
        = Some (''HTTP/1.1 101 Switching Protocols'' @ CRLF @ ''Upgrade: websocket'' @ CRLF
                @ ''Connection: Upgrade'' @ CRLF
                @ ''Sec-WebSocket-Accept: ''
                @ Base64_reference (SHA1_reference (map of_char (K @ ''258EAFA5-E914-47DA-95CA-C5AB0DC85B11'')))
                @ CRLF @ CRLF))
   \<and> PerformServerHandshake (Some request)
       = (case HeaderLoop (getlines request) ([], False) of
            (secKey, isWebSocket) \<Rightarrow>
              if isWebSocket \<and> secKey \<noteq> [] then
                Some (''HTTP/1.1 101 Switching Protocols'' @ CRLF @ ''Upgrade: websocket'' @ CRLF
                      @ ''Connection: Upgrade'' @ CRLF
                      @ ''Sec-WebSocket-Accept: ''
                      @ Base64_reference (SHA1_reference
                          (map of_char (secKey @ ''258EAFA5-E914-47DA-95CA-C5AB0DC85B11'')))
                      @ CRLF @ CRLF)
              else None)
   \<and> WebSocketAcceptKey ''dGhlIHNhbXBsZSBub25jZQ=='' = ''s3pPLMBiTxaQ9kYGzzhZRbK+xOo=''"
proof (intro conjI impI)
  have ref: "WebSocketAcceptKey k
     = Base64_reference (SHA1_reference (map of_char (k @ ''258EAFA5-E914-47DA-95CA-C5AB0DC85B11'')))" for k
    unfolding WebSocketAcceptKey_def Let_def kGuid_def Sha1_reference Base64Encode_reference ..
  show "WebSocketAcceptKey K
     = Base64_reference (SHA1_reference (map of_char (K @ ''258EAFA5-E914-47DA-95CA-C5AB0DC85B11'')))"
    by (rule ref)
  show "PerformServerHandshake (Some request)
       = (case HeaderLoop (getlines request) ([], False) of
            (secKey, isWebSocket) \<Rightarrow>
              if isWebSocket \<and> secKey \<noteq> [] then
                Some (''HTTP/1.1 101 Switching Protocols'' @ CRLF @ ''Upgrade: websocket'' @ CRLF
                      @ ''Connection: Upgrade'' @ CRLF
                      @ ''Sec-WebSocket-Accept: ''
                      @ Base64_reference (SHA1_reference
                          (map of_char (secKey @ ''258EAFA5-E914-47DA-95CA-C5AB0DC85B11'')))
                      @ CRLF @ CRLF)
              else None)"
    unfolding PerformServerHandshake_def option.case ref
    by (cases "HeaderLoop (getlines request) ([], False)") simp
  have "WebSocketAcceptKey rfc_key = ''s3pPLMBiTxaQ9kYGzzhZRbK+xOo=''"
    by (simp add: WebSocketAcceptKey_def Let_def rfc_digest rfc_base64)
  then show "WebSocketAcceptKey ''dGhlIHNhbXBsZSBub25jZQ=='' = ''s3pPLMBiTxaQ9kYGzzhZRbK+xOo=''"
    by (simp add: rfc_key_def)
  assume a: "K \<noteq> [] \<and> set K \<subseteq> set (Base64_alphabet @ ''='')"
  then have k: "K \<noteq> []" and s: "set K \<subseteq> set (Base64_alphabet @ ''='')" by blast+
  have 1: "CHR 0x0A \<notin> set K" using Base64_key_chars(2)[OF s] by blast
  have 2: "\<not> isspace (hd K)" using Base64_key_chars(1)[OF s, of "hd K"] k by simp
  have 3: "\<not> isspace (last K)" using Base64_key_chars(1)[OF s, of "last K"] k by simp
  show "PerformServerHandshake
          (Some (''GET / HTTP/1.1'' @ CRLF @ ''Upgrade: websocket'' @ CRLF
                 @ ''Sec-WebSocket-Key: '' @ K @ CRLF @ CRLF @ following))
        = Some (''HTTP/1.1 101 Switching Protocols'' @ CRLF @ ''Upgrade: websocket'' @ CRLF
                @ ''Connection: Upgrade'' @ CRLF
                @ ''Sec-WebSocket-Accept: ''
                @ Base64_reference (SHA1_reference (map of_char (K @ ''258EAFA5-E914-47DA-95CA-C5AB0DC85B11'')))
                @ CRLF @ CRLF)"
    unfolding ref[symmetric] by (rule PerformServerHandshake_wire[OF k 1 2 3])
qed

theorem C5_accept_key_witness:
  "PerformServerHandshake
     (Some (''GET / HTTP/1.1'' @ CRLF @ ''Upgrade: websocket'' @ CRLF
            @ ''Sec-WebSocket-Key: dGhlIHNhbXBsZSBub25jZQ=='' @ CRLF @ CRLF))
   = Some (''HTTP/1.1 101 Switching Protocols'' @ CRLF @ ''Upgrade: websocket'' @ CRLF
           @ ''Connection: Upgrade'' @ CRLF
           @ ''Sec-WebSocket-Accept: s3pPLMBiTxaQ9kYGzzhZRbK+xOo='' @ CRLF @ CRLF)
   \<and> Base64_reference (SHA1_reference
        (map of_char ''dGhlIHNhbXBsZSBub25jZQ==258EAFA5-E914-47DA-95CA-C5AB0DC85B11''))
     = ''s3pPLMBiTxaQ9kYGzzhZRbK+xOo=''"
proof -
  note t = C5_accept_key[of "''dGhlIHNhbXBsZSBub25jZQ==''" "[]" "[]"]
  have h: "''dGhlIHNhbXBsZSBub25jZQ=='' \<noteq> [] \<and> set ''dGhlIHNhbXBsZSBub25jZQ=='' \<subseteq> set (Base64_alphabet @ ''='')"
    by (simp add: Base64_alphabet_def)
  from t have a: "WebSocketAcceptKey ''dGhlIHNhbXBsZSBub25jZQ==''
     = Base64_reference (SHA1_reference (map of_char (''dGhlIHNhbXBsZSBub25jZQ=='' @ ''258EAFA5-E914-47DA-95CA-C5AB0DC85B11'')))"
    by (rule conjunct1)
  from t have v: "WebSocketAcceptKey ''dGhlIHNhbXBsZSBub25jZQ=='' = ''s3pPLMBiTxaQ9kYGzzhZRbK+xOo=''"
    by blast
  from a v have r: "Base64_reference (SHA1_reference (map of_char (''dGhlIHNhbXBsZSBub25jZQ=='' @ ''258EAFA5-E914-47DA-95CA-C5AB0DC85B11'')))
                 = ''s3pPLMBiTxaQ9kYGzzhZRbK+xOo=''"
    by simp
  from t h have "PerformServerHandshake
          (Some (''GET / HTTP/1.1'' @ CRLF @ ''Upgrade: websocket'' @ CRLF
                 @ ''Sec-WebSocket-Key: '' @ ''dGhlIHNhbXBsZSBub25jZQ=='' @ CRLF @ CRLF @ []))
        = Some (''HTTP/1.1 101 Switching Protocols'' @ CRLF @ ''Upgrade: websocket'' @ CRLF
                @ ''Connection: Upgrade'' @ CRLF
                @ ''Sec-WebSocket-Accept: ''
                @ Base64_reference (SHA1_reference (map of_char (''dGhlIHNhbXBsZSBub25jZQ=='' @ ''258EAFA5-E914-47DA-95CA-C5AB0DC85B11'')))
                @ CRLF @ CRLF)"
    by blast
  then have "PerformServerHandshake
     (Some (''GET / HTTP/1.1'' @ CRLF @ ''Upgrade: websocket'' @ CRLF
            @ ''Sec-WebSocket-Key: dGhlIHNhbXBsZSBub25jZQ=='' @ CRLF @ CRLF))
   = Some (''HTTP/1.1 101 Switching Protocols'' @ CRLF @ ''Upgrade: websocket'' @ CRLF
           @ ''Connection: Upgrade'' @ CRLF
           @ ''Sec-WebSocket-Accept: s3pPLMBiTxaQ9kYGzzhZRbK+xOo='' @ CRLF @ CRLF)"
    unfolding r by simp
  with r show ?thesis by simp
qed
end
